theory Spec2Isabelle
  imports Main
begin

section \<open>Junction core: data model\<close>

text \<open>
  A shallow embedding of the event collection and consent-gated dispatch engine:
  the consent manager (\<open>consent.ts\<close>), the validator (\<open>validation.ts\<close>) and the
  collector (\<open>collector.ts\<close>).

  JavaScript objects with string keys are association lists in insertion order; \<open>map_of\<close>
  reads a key, and a missing key is \<open>undefined\<close>. Times are milliseconds as \<open>int\<close>.
  The closure state of a factory is a record, and every operation takes the state and
  returns the new one. Calls made to the outside (destination callbacks, event emission,
  console output) are recorded, in order, in the list of effects an operation returns
  next to the new state.

  Callbacks are given by what they do when called: return a value, throw, or, for \<open>send\<close>,
  return a promise that resolves or rejects. They do not call back into the collector.
  What \<open>uuid()\<close> and \<open>Date.now()\<close> return comes from outside: the identifier of an event
  is an argument of \<open>track\<close>, the time is the \<open>clock\<close> of the state. Logging under
  \<open>config.debug\<close>, the initialisation and teardown of destinations, and the handlers
  subscribed with \<open>on\<close> are left out; \<open>emit\<close> is recorded as a call.
\<close>

datatype jvalue = JStr string | JNum int | JBool bool | JNull

type_synonym 'v obj = "(string \<times> 'v) list"
type_synonym props = "jvalue obj"
type_synonym ConsentState = "bool obj"

text \<open>Object spread \<open>{ ...a, ...b }\<close>: the keys of \<open>a\<close> keep their place and take the
  value \<open>b\<close> gives them, the keys only \<open>b\<close> has follow in the order of \<open>b\<close>.\<close>

definition spread :: "'v obj \<Rightarrow> 'v obj \<Rightarrow> 'v obj" where
  "spread a b =
     map (\<lambda>(k, v). (k, case map_of b k of Some w \<Rightarrow> w | None \<Rightarrow> v)) a
     @ filter (\<lambda>(k, w). map_of a k = None) b"

record UserIdentity =
  anonymousId :: string
  userId :: "string option"
  traits :: "props option"

record EventSource =
  source_type :: string
  source_name :: string
  source_version :: string

record JctEvent =
  entity :: string
  action :: string
  properties :: props
  event_context :: props
  user :: UserIdentity
  timestamp :: int
  event_id :: string
  version :: string
  source :: EventSource

subsection \<open>Destinations\<close>

text \<open>A callback either returns or throws; \<open>send\<close> returns a promise that settles later,
  unless it throws before returning one.\<close>

datatype 'a outcome = Returns 'a | Throws string

datatype send_outcome = SendResolves | SendRejects string | SendThrows string

record Destination =
  name :: string
  dest_consent :: "string list"
  transform :: "JctEvent \<Rightarrow> props option outcome"
  send :: "props \<Rightarrow> props \<Rightarrow> send_outcome"
  onConsent :: "(ConsentState \<Rightarrow> unit outcome) option"

record DestinationEntry =
  destination :: Destination
  config :: props
  entry_consent :: "string list option"
  enabled :: "bool option"

subsection \<open>Effects\<close>

datatype CollectorEvent =
  Event | EventValid | EventInvalid | Consent | DestinationSend | DestinationError
  | DestinationInit | QueueFlush | Error

datatype emit_payload =
  PEvent JctEvent
  | PInvalid JctEvent "string list option"
  | PConsent ConsentState
  | PDestinationSend string JctEvent
  | PDestinationError string string "JctEvent option"
  | PQueueFlush nat

text \<open>
  \<open>Emit\<close> is a call of the collector's \<open>emit\<close>, which hands the payload to every handler
  subscribed to that type, each inside its own try/catch. \<open>Dispatch\<close> marks an entry into
  \<open>dispatchToDestinations\<close>, \<open>Enqueue\<close> a call of the consent manager's \<open>enqueue\<close>.
\<close>

datatype effect =
  Emit CollectorEvent emit_payload
  | Dispatch JctEvent
  | Enqueue JctEvent
  | TransformCall string JctEvent
  | SendCall string props props
  | OnConsentCall string ConsentState
  | ConsoleError string
  | ConsoleWarn string

section \<open>Consent manager\<close>

record ConsentConfig =
  defaultState :: ConsentState
  queueTimeout :: int
  respectDNT :: bool
  respectGPC :: bool

record QueuedEvent =
  event :: JctEvent
  queuedAt :: int

text \<open>The part of \<open>globalThis.navigator\<close> the manager reads; \<open>None\<close> where there is no
  navigator.\<close>

record Navigator =
  doNotTrack :: bool
  globalPrivacyControl :: bool

text \<open>
  The closure state of \<open>createConsentManager\<close>. \<open>nextSweep\<close> is the time the cleanup
  interval fires next; the interval exists only when \<open>queueTimeout > 0\<close>. The only
  listener ever subscribed is the collector's change handler, so the listener set is not
  part of the record.
\<close>

record ConsentManager =
  cm_config :: ConsentConfig
  state :: ConsentState
  queue :: "QueuedEvent list"
  nextSweep :: int

definition sweepInterval :: "ConsentConfig \<Rightarrow> int" where
  "sweepInterval cfg = min (queueTimeout cfg) 30000"

definition createConsentManager :: "ConsentConfig \<Rightarrow> Navigator option \<Rightarrow> int \<Rightarrow> ConsentManager" where
  "createConsentManager cfg nav now =
     (let s0 = spread [] (defaultState cfg);
          s1 = (case nav of
                  None \<Rightarrow> s0
                | Some n \<Rightarrow>
                    (let a = (if respectDNT cfg \<and> doNotTrack n
                              then spread s0 [(''analytics'', False), (''marketing'', False)]
                              else s0)
                     in if respectGPC cfg \<and> globalPrivacyControl n
                        then spread a [(''analytics'', False), (''marketing'', False),
                                       (''personalization'', False)]
                        else a))
      in \<lparr> cm_config = cfg, state = s1, queue = [], nextSweep = now + sweepInterval cfg \<rparr>)"

definition isAllowed :: "ConsentManager \<Rightarrow> string list \<Rightarrow> bool" where
  "isAllowed cm required =
     (if required = [] \<or> list_all (\<lambda>c. c = ''necessary'') required then True
      else list_ex (\<lambda>category. map_of (state cm) category = Some True) required)"

text \<open>
  \<open>state\<close> is an object literal, so \<open>state[cat]\<close> reads an own key first and then
  \<open>Object.prototype\<close>, and a category is any string. \<open>objectPrototypeNames\<close> are the
  string-keyed members every object inherits. For a category that is not stored,
  \<open>state[cat]\<close> is a function or an object when \<open>cat\<close> is one of these names, and
  \<open>undefined\<close> otherwise; a stored category reads as the boolean stored for it. An
  inherited member is never \<open>=== true\<close>, so \<open>isAllowed\<close> sees stored values only.
\<close>

definition objectPrototypeNames :: "string list" where
  "objectPrototypeNames =
     [''constructor'', ''__defineGetter__'', ''__defineSetter__'', ''hasOwnProperty'',
      ''__lookupGetter__'', ''__lookupSetter__'', ''isPrototypeOf'', ''propertyIsEnumerable'',
      ''toString'', ''valueOf'', ''__proto__'', ''toLocaleString'']"

text \<open>\<open>state[cat] === undefined\<close>.\<close>

definition readsUndefined :: "ConsentState \<Rightarrow> string \<Rightarrow> bool" where
  "readsUndefined st cat = (map_of st cat = None \<and> cat \<notin> set objectPrototypeNames)"

definition isPending :: "ConsentManager \<Rightarrow> string list \<Rightarrow> bool" where
  "isPending cm categories = list_ex (\<lambda>cat. readsUndefined (state cm) cat) categories"

definition enqueue :: "JctEvent \<Rightarrow> int \<Rightarrow> ConsentManager \<Rightarrow> ConsentManager" where
  "enqueue ev now cm =
     (if queueTimeout (cm_config cm) = 0 then cm
      else cm\<lparr> queue := queue cm @ [\<lparr> event = ev, queuedAt = now \<rparr>] \<rparr>)"

definition drain :: "ConsentManager \<Rightarrow> QueuedEvent list \<times> ConsentManager" where
  "drain cm = (queue cm, cm\<lparr> queue := [] \<rparr>)"

definition queueSize :: "ConsentManager \<Rightarrow> nat" where
  "queueSize cm = length (queue cm)"

text \<open>The callback of the cleanup interval, run at time \<open>now\<close>.\<close>

definition sweep :: "int \<Rightarrow> ConsentManager \<Rightarrow> ConsentManager" where
  "sweep now cm =
     cm\<lparr> queue := filter (\<lambda>item. now - queuedAt item < queueTimeout (cm_config cm)) (queue cm) \<rparr>"

section \<open>Validator\<close>

datatype contract_mode = Strict | Lenient

text \<open>What \<open>schema.safeParse\<close> does on the properties: the parsed output, the error with
  its issues, or an exception out of a broken schema.\<close>

datatype parse_result = ParseSuccess props | ParseFailure "string list" | ParseThrows string

record EventContract =
  contract_entity :: string
  contract_action :: string
  contract_version :: string
  schema :: "props \<Rightarrow> parse_result"
  mode :: contract_mode

record ValidationResult =
  valid :: bool
  result_event :: JctEvent
  errors :: "string list option"
  coerced :: "bool option"

text \<open>\<open>Map.set\<close>: an existing key keeps its place and takes the new value, a new key is
  appended. \<open>Map.delete\<close> removes the key.\<close>

fun map_set :: "string \<Rightarrow> 'v \<Rightarrow> 'v obj \<Rightarrow> 'v obj" where
  "map_set k v [] = [(k, v)]"
| "map_set k v ((k', v') # m) = (if k' = k then (k, v) # m else (k', v') # map_set k v m)"

definition map_delete :: "string \<Rightarrow> 'v obj \<Rightarrow> 'v obj" where
  "map_delete k m = filter (\<lambda>(k', v). k' \<noteq> k) m"

definition key :: "string \<Rightarrow> string \<Rightarrow> string" where
  "key e a = e @ '':'' @ a"

definition findContract :: "EventContract obj \<Rightarrow> string \<Rightarrow> string \<Rightarrow> EventContract option" where
  "findContract contracts e a =
     (case map_of contracts (key e a) of
        Some c \<Rightarrow> Some c
      | None \<Rightarrow> map_of contracts (key e ''*''))"

definition register :: "EventContract \<Rightarrow> EventContract obj \<Rightarrow> EventContract obj" where
  "register c contracts = map_set (key (contract_entity c) (contract_action c)) c contracts"

definition unregister :: "string \<Rightarrow> string \<Rightarrow> EventContract obj \<Rightarrow> EventContract obj" where
  "unregister e a contracts = map_delete (key e a) contracts"

text \<open>\<open>validate\<close> returns its result together with what it writes to the console.
  \<open>coerced\<close> compares the parsed output with the input by value here, by reference in
  the source.\<close>

definition validate :: "EventContract obj \<Rightarrow> JctEvent \<Rightarrow> effect list \<times> ValidationResult" where
  "validate contracts ev =
     (case findContract contracts (entity ev) (action ev) of
        None \<Rightarrow> ([], \<lparr> valid = True, result_event = ev, errors = None, coerced = None \<rparr>)
      | Some contract \<Rightarrow>
          (case schema contract (properties ev) of
             ParseSuccess data \<Rightarrow>
               ([], \<lparr> valid = True, result_event = ev\<lparr> properties := data \<rparr>, errors = None,
                      coerced = Some (data \<noteq> properties ev) \<rparr>)
           | ParseFailure err \<Rightarrow>
               (if mode contract = Strict
                then ([], \<lparr> valid = False, result_event = ev, errors = Some err, coerced = None \<rparr>)
                else ([ConsoleWarn (key (entity ev) (action ev))],
                      \<lparr> valid = True, result_event = ev, errors = Some err, coerced = None \<rparr>))
           | ParseThrows e \<Rightarrow>
               ([ConsoleError (key (entity ev) (action ev))],
                \<lparr> valid = True, result_event = ev, errors = None, coerced = None \<rparr>)))"

section \<open>Collector\<close>

record BufferConfig =
  maxSize :: int
  maxWait :: int

record CollectorConfig =
  cfg_consent :: ConsentConfig
  cfg_destinations :: "DestinationEntry list"
  cfg_contracts :: "EventContract list option"
  cfg_globals :: "props option"
  cfg_buffer :: "BufferConfig option"

text \<open>\<open>resolveContext\<close> is given by the value the resolver returns, \<open>None\<close> when no
  resolver is configured.\<close>

record CreateCollectorOptions =
  opt_config :: CollectorConfig
  opt_source :: EventSource
  resolveContext :: "props option"

text \<open>
  The closure state of \<open>createCollector\<close>. \<open>flushTimer\<close> holds the time the pending
  \<open>setTimeout\<close> fires, \<open>clock\<close> is the current time, and \<open>microtasks\<close> holds the
  reactions of rejected send promises that are still to run, each one a call of \<open>emit\<close>.
\<close>

record Collector =
  options :: CreateCollectorOptions
  current_user :: UserIdentity
  destinations :: "DestinationEntry obj"
  consent_mgr :: ConsentManager
  contracts :: "EventContract obj"
  buffer :: "JctEvent list"
  flushTimer :: "int option"
  bufferConfig :: BufferConfig
  clock :: int
  microtasks :: "(CollectorEvent \<times> emit_payload) list"

definition registerDestinations :: "DestinationEntry list \<Rightarrow> DestinationEntry obj" where
  "registerDestinations entries =
     foldl (\<lambda>m entry. if enabled entry = Some False then m
                       else map_set (name (destination entry)) entry m) [] entries"

definition createCollector ::
  "CreateCollectorOptions \<Rightarrow> string \<Rightarrow> Navigator option \<Rightarrow> int \<Rightarrow> Collector" where
  "createCollector opts anon nav now =
     (let cfg = opt_config opts in
      \<lparr> options = opts,
        current_user = \<lparr> anonymousId = anon, userId = None, traits = None \<rparr>,
        destinations = registerDestinations (cfg_destinations cfg),
        consent_mgr = createConsentManager (cfg_consent cfg) nav now,
        contracts = (case cfg_contracts cfg of
                       None \<Rightarrow> []
                     | Some cs \<Rightarrow> foldl (\<lambda>m c. register c m) [] cs),
        buffer = [],
        flushTimer = None,
        bufferConfig = (case cfg_buffer cfg of
                          None \<Rightarrow> \<lparr> maxSize = 10, maxWait = 2000 \<rparr>
                        | Some b \<Rightarrow> b),
        clock = now,
        microtasks = [] \<rparr>)"

definition buildContext :: "Collector \<Rightarrow> props" where
  "buildContext s =
     spread (spread [] (case cfg_globals (opt_config (options s)) of None \<Rightarrow> [] | Some g \<Rightarrow> g))
            (case resolveContext (options s) of None \<Rightarrow> [] | Some r \<Rightarrow> r)"

text \<open>\<open>uid\<close> is the identifier \<open>uuid()\<close> draws for the event.\<close>

definition buildEvent :: "string \<Rightarrow> string \<Rightarrow> string \<Rightarrow> props option \<Rightarrow> Collector \<Rightarrow> JctEvent" where
  "buildEvent uid ent act ps s =
     \<lparr> entity = ent, action = act,
       properties = (case ps of None \<Rightarrow> [] | Some p \<Rightarrow> p),
       event_context = buildContext s,
       user = current_user s,
       timestamp = clock s,
       event_id = uid,
       version = ''1.0.0'',
       source = opt_source (options s) \<rparr>"

definition requiredConsent :: "DestinationEntry \<Rightarrow> string list" where
  "requiredConsent entry =
     (case entry_consent entry of Some c \<Rightarrow> c | None \<Rightarrow> dest_consent (destination entry))"

text \<open>One turn of the loop of \<open>dispatchToDestinations\<close>.\<close>

definition dispatchEntry ::
  "JctEvent \<Rightarrow> string \<times> DestinationEntry \<Rightarrow> Collector \<Rightarrow> effect list \<times> Collector" where
  "dispatchEntry ev ne s =
     (let nm = fst ne; entry = snd ne; required = requiredConsent entry in
      if \<not> isAllowed (consent_mgr s) required then
        (if isPending (consent_mgr s) required
         then ([Enqueue ev], s\<lparr> consent_mgr := enqueue ev (clock s) (consent_mgr s) \<rparr>)
         else ([], s))
      else
        (case transform (destination entry) ev of
           Throws e \<Rightarrow>
             ([TransformCall nm ev, Emit DestinationError (PDestinationError nm e (Some ev))], s)
         | Returns None \<Rightarrow> ([TransformCall nm ev], s)
         | Returns (Some payload) \<Rightarrow>
             (case send (destination entry) payload (config entry) of
                SendThrows e \<Rightarrow>
                  ([TransformCall nm ev, SendCall nm payload (config entry),
                    Emit DestinationError (PDestinationError nm e (Some ev))], s)
              | SendRejects e \<Rightarrow>
                  ([TransformCall nm ev, SendCall nm payload (config entry),
                    Emit DestinationSend (PDestinationSend nm ev)],
                   s\<lparr> microtasks := microtasks s
                        @ [(DestinationError, PDestinationError nm e (Some ev))] \<rparr>)
              | SendResolves \<Rightarrow>
                  ([TransformCall nm ev, SendCall nm payload (config entry),
                    Emit DestinationSend (PDestinationSend nm ev)], s))))"

fun dispatchLoop ::
  "JctEvent \<Rightarrow> DestinationEntry obj \<Rightarrow> Collector \<Rightarrow> effect list \<times> Collector" where
  "dispatchLoop ev [] s = ([], s)"
| "dispatchLoop ev (ne # rest) s =
     (let r1 = dispatchEntry ev ne s; r2 = dispatchLoop ev rest (snd r1)
      in (fst r1 @ fst r2, snd r2))"

definition dispatchToDestinations :: "JctEvent \<Rightarrow> Collector \<Rightarrow> effect list \<times> Collector" where
  "dispatchToDestinations ev s =
     (let r = dispatchLoop ev (destinations s) s in (Dispatch ev # fst r, snd r))"

fun dispatchAll :: "JctEvent list \<Rightarrow> Collector \<Rightarrow> effect list \<times> Collector" where
  "dispatchAll [] s = ([], s)"
| "dispatchAll (ev # evs) s =
     (let r1 = dispatchToDestinations ev s; r2 = dispatchAll evs (snd r1)
      in (fst r1 @ fst r2, snd r2))"

text \<open>
  The delay \<open>setTimeout\<close> waits for: a delay below 1 or above 2147483647 milliseconds
  (the largest 32-bit signed integer) is set to 1, as Node.js does. Other runtimes take a
  delay below 1 as 0 and let a delay above 2147483647 fire at once; all agree from 1 to
  2147483647. The interval of the consent manager's \<open>setInterval\<close> lies between 1 and
  30000 and is taken as it is.
\<close>

definition setTimeoutDelay :: "int \<Rightarrow> int" where
  "setTimeoutDelay d = (if 1 \<le> d \<and> d \<le> 2147483647 then d else 1)"

definition scheduleFlush :: "Collector \<Rightarrow> Collector" where
  "scheduleFlush s =
     (case flushTimer s of
        Some t \<Rightarrow> s
      | None \<Rightarrow> s\<lparr> flushTimer := Some (clock s + setTimeoutDelay (maxWait (bufferConfig s))) \<rparr>)"

definition flushBuffer :: "Collector \<Rightarrow> effect list \<times> Collector" where
  "flushBuffer s =
     (let s1 = s\<lparr> flushTimer := None \<rparr> in
      if buffer s1 = [] then ([], s1)
      else dispatchAll (buffer s1) (s1\<lparr> buffer := [] \<rparr>))"

subsection \<open>Public API\<close>

definition track ::
  "string \<Rightarrow> string \<Rightarrow> string \<Rightarrow> props option \<Rightarrow> Collector \<Rightarrow> effect list \<times> Collector" where
  "track uid ent act ps s =
     (let ev = buildEvent uid ent act ps s;
          v = validate (contracts s) ev;
          result = snd v
      in if \<not> valid result
         then (fst v @ [Emit EventInvalid (PInvalid ev (errors result))], s)
         else
           (let announced = fst v @ [Emit Event (PEvent ev), Emit EventValid (PEvent ev)];
                s1 = s\<lparr> buffer := buffer s @ [result_event result] \<rparr>
            in if int (length (buffer s1)) \<ge> maxSize (bufferConfig s1)
               then (let r = flushBuffer s1 in (announced @ fst r, snd r))
               else (announced, scheduleFlush s1)))"

definition identify ::
  "string \<Rightarrow> string \<Rightarrow> props option \<Rightarrow> Collector \<Rightarrow> effect list \<times> Collector" where
  "identify uid uid_user new_traits s =
     (let t = (case new_traits of None \<Rightarrow> [] | Some x \<Rightarrow> x);
          u = current_user s;
          s1 = s\<lparr> current_user :=
                   u\<lparr> userId := Some uid_user,
                      traits := Some (spread (case traits u of None \<Rightarrow> [] | Some x \<Rightarrow> x) t) \<rparr> \<rparr>
      in track uid ''user'' ''identified'' (Some (spread [(''userId'', JStr uid_user)] t)) s1)"

text \<open>The loop over the destinations' \<open>onConsent\<close> has no try/catch: the first callback
  that throws ends it, and the exception leaves the change handler.\<close>

fun notifyDestinations ::
  "DestinationEntry obj \<Rightarrow> ConsentState \<Rightarrow> effect list \<times> string option" where
  "notifyDestinations [] st = ([], None)"
| "notifyDestinations (ne # rest) st =
     (case onConsent (destination (snd ne)) of
        None \<Rightarrow> notifyDestinations rest st
      | Some f \<Rightarrow>
          (case f st of
             Throws e \<Rightarrow> ([OnConsentCall (fst ne) st], Some e)
           | Returns u \<Rightarrow>
               (let r = notifyDestinations rest st
                in (OnConsentCall (fst ne) st # fst r, snd r))))"

definition redispatch :: "QueuedEvent list \<Rightarrow> Collector \<Rightarrow> effect list \<times> Collector" where
  "redispatch queued s =
     dispatchAll (map (\<lambda>q. (event q)\<lparr> user := current_user s \<rparr>) queued) s"

text \<open>The listener given to \<open>consent.onChange\<close>; the third component is the exception
  that leaves it, if any.\<close>

definition changeHandler ::
  "ConsentState \<Rightarrow> Collector \<Rightarrow> effect list \<times> Collector \<times> string option" where
  "changeHandler st s =
     (let n = notifyDestinations (destinations s) st in
      case snd n of
        Some e \<Rightarrow> (Emit Consent (PConsent st) # fst n, s, Some e)
      | None \<Rightarrow>
          (let d = drain (consent_mgr s);
               queued = fst d;
               r = redispatch queued (s\<lparr> consent_mgr := snd d \<rparr>)
           in (Emit Consent (PConsent st) # fst n @ fst r
                 @ [Emit QueueFlush (PQueueFlush (length queued))],
               snd r, None)))"

text \<open>\<open>setState\<close> merges the update and runs \<open>notify\<close>, which catches what the listener
  throws and logs it.\<close>

definition setState :: "ConsentState \<Rightarrow> Collector \<Rightarrow> effect list \<times> Collector" where
  "setState update s =
     (let cm = consent_mgr s;
          st = spread (state cm) update;
          h = changeHandler st (s\<lparr> consent_mgr := cm\<lparr> state := st \<rparr> \<rparr>)
      in case snd (snd h) of
           None \<Rightarrow> (fst h, fst (snd h))
         | Some e \<Rightarrow> (fst h @ [ConsoleError e], fst (snd h)))"

definition consent :: "ConsentState \<Rightarrow> Collector \<Rightarrow> effect list \<times> Collector" where
  "consent st s = setState st s"

definition getConsent :: "Collector \<Rightarrow> ConsentState" where
  "getConsent s = state (consent_mgr s)"

subsection \<open>Timers and the event loop\<close>

text \<open>
  Time passes between calls. \<open>runMicrotasks\<close> runs the pending promise reactions,
  which happens whenever the running task ends. \<open>advanceTo t\<close> lets the clock reach
  \<open>t\<close> and runs the timers that come due on the way, at their own times: the cleanup
  interval of the consent manager, as often as it fits, and the flush timer, which fires
  once (nothing arms it again before the next \<open>track\<close>).
\<close>

definition runMicrotasks :: "Collector \<Rightarrow> effect list \<times> Collector" where
  "runMicrotasks s = (map (\<lambda>(ty, p). Emit ty p) (microtasks s), s\<lparr> microtasks := [] \<rparr>)"

definition sweepDue :: "int \<Rightarrow> Collector \<Rightarrow> bool" where
  "sweepDue t s =
     (queueTimeout (cm_config (consent_mgr s)) > 0 \<and> nextSweep (consent_mgr s) \<le> t)"

definition fireSweep :: "Collector \<Rightarrow> Collector" where
  "fireSweep s =
     (let cm = consent_mgr s; now = max (clock s) (nextSweep cm) in
      s\<lparr> clock := now,
         consent_mgr := (sweep now cm)\<lparr> nextSweep := nextSweep cm + sweepInterval (cm_config cm) \<rparr> \<rparr>)"

function runSweeps :: "int \<Rightarrow> Collector \<Rightarrow> Collector" where
  "runSweeps t s = (if sweepDue t s then runSweeps t (fireSweep s) else s)"
  by pat_completeness auto
termination
  by (relation "measure (\<lambda>(t, s). nat (t + 1 - nextSweep (consent_mgr s)))")
     (auto simp: sweepDue_def fireSweep_def sweep_def sweepInterval_def Let_def)

declare runSweeps.simps [simp del]

definition fireFlushTimer :: "int \<Rightarrow> Collector \<Rightarrow> effect list \<times> Collector" where
  "fireFlushTimer d s =
     (let r = flushBuffer (s\<lparr> clock := max (clock s) d \<rparr>);
          m = runMicrotasks (snd r)
      in (fst r @ fst m, snd m))"

definition settle :: "int \<Rightarrow> Collector \<Rightarrow> Collector" where
  "settle t s = (let s1 = runSweeps t s in s1\<lparr> clock := max (clock s1) t \<rparr>)"

definition advanceTo :: "int \<Rightarrow> Collector \<Rightarrow> effect list \<times> Collector" where
  "advanceTo t s =
     (let m = runMicrotasks s; s0 = snd m in
      case flushTimer s0 of
        None \<Rightarrow> (fst m, settle t s0)
      | Some d \<Rightarrow>
          if d \<le> t
          then (let r = fireFlushTimer d (runSweeps d s0)
                in (fst m @ fst r, settle t (snd r)))
          else (fst m, settle t s0))"

text \<open>\<open>flush()\<close> awaits the initialisation of the destinations and then flushes the
  buffer; the call below is that second step.\<close>

definition flush :: "Collector \<Rightarrow> effect list \<times> Collector" where
  "flush s = flushBuffer s"

datatype api_call =
  Track string string string "props option"
  | Identify string string "props option"
  | ConsentCall ConsentState
  | Flush
  | AdvanceTo int
  | Microtasks

fun applyCall :: "api_call \<Rightarrow> Collector \<Rightarrow> effect list \<times> Collector" where
  "applyCall (Track uid ent act ps) s = track uid ent act ps s"
| "applyCall (Identify uid u ts) s = identify uid u ts s"
| "applyCall (ConsentCall st) s = consent st s"
| "applyCall Flush s = flush s"
| "applyCall (AdvanceTo t) s = advanceTo t s"
| "applyCall Microtasks s = runMicrotasks s"

fun run :: "api_call list \<Rightarrow> Collector \<Rightarrow> effect list \<times> Collector" where
  "run [] s = ([], s)"
| "run (c # cs) s =
     (let r1 = applyCall c s; r2 = run cs (snd r1) in (fst r1 @ fst r2, snd r2))"

section \<open>Reading a list of effects\<close>

text \<open>The events handed to the \<open>transform\<close> of the destination registered as \<open>n\<close>, the
  payloads handed to its \<open>send\<close>, the events \<open>dispatchToDestinations\<close> was entered with and
  the events \<open>enqueue\<close> was called with, each in order.\<close>

fun transformCalls :: "string \<Rightarrow> effect list \<Rightarrow> JctEvent list" where
  "transformCalls n [] = []"
| "transformCalls n (TransformCall m ev # es) =
     (if m = n then ev # transformCalls n es else transformCalls n es)"
| "transformCalls n (e # es) = transformCalls n es"

fun sendCalls :: "string \<Rightarrow> effect list \<Rightarrow> props list" where
  "sendCalls n [] = []"
| "sendCalls n (SendCall m payload cfg # es) =
     (if m = n then payload # sendCalls n es else sendCalls n es)"
| "sendCalls n (e # es) = sendCalls n es"

fun dispatched :: "effect list \<Rightarrow> JctEvent list" where
  "dispatched [] = []"
| "dispatched (Dispatch ev # es) = ev # dispatched es"
| "dispatched (e # es) = dispatched es"

fun enqueued :: "effect list \<Rightarrow> JctEvent list" where
  "enqueued [] = []"
| "enqueued (Enqueue ev # es) = ev # enqueued es"
| "enqueued (e # es) = enqueued es"

text \<open>Every call of a destination's \<open>transform\<close> or \<open>send\<close>, whatever the destination,
  and the names of the destinations whose \<open>onConsent\<close> is called, each in order.\<close>

fun destinationCalls :: "effect list \<Rightarrow> effect list" where
  "destinationCalls [] = []"
| "destinationCalls (TransformCall m ev # es) = TransformCall m ev # destinationCalls es"
| "destinationCalls (SendCall m payload cfg # es) = SendCall m payload cfg # destinationCalls es"
| "destinationCalls (e # es) = destinationCalls es"

fun onConsentCalls :: "effect list \<Rightarrow> string list" where
  "onConsentCalls [] = []"
| "onConsentCalls (OnConsentCall m st # es) = m # onConsentCalls es"
| "onConsentCalls (e # es) = onConsentCalls es"

section \<open>Notions of the statements\<close>

text \<open>A destination whose consent is neither granted nor refused: the branch of the
  dispatch loop that calls \<open>enqueue\<close>.\<close>

definition blockedPending :: "ConsentManager \<Rightarrow> string \<times> DestinationEntry \<Rightarrow> bool" where
  "blockedPending cm ne =
     (\<not> isAllowed cm (requiredConsent (snd ne)) \<and> isPending cm (requiredConsent (snd ne)))"

text \<open>No \<open>onConsent\<close> callback throws when told the state that \<open>update\<close> leads to.\<close>

definition onConsentReturns :: "ConsentState \<Rightarrow> Collector \<Rightarrow> bool" where
  "onConsentReturns update s =
     (snd (notifyDestinations (destinations s) (spread (state (consent_mgr s)) update)) = None)"

text \<open>A \<open>track\<close> call whose event passes validation, that is, for which \<open>validate\<close>
  returns \<open>valid = true\<close>: no contract, a schema that accepts or throws, or a lenient
  contract.\<close>

definition accepted :: "EventContract obj \<Rightarrow> string \<Rightarrow> string \<Rightarrow> props option \<Rightarrow> bool" where
  "accepted cs e a ps =
     (case findContract cs e a of
        None \<Rightarrow> True
      | Some c \<Rightarrow>
          (case schema c (case ps of None \<Rightarrow> [] | Some p \<Rightarrow> p) of
             ParseFailure err \<Rightarrow> mode c \<noteq> Strict
           | _ \<Rightarrow> True))"

text \<open>The identifiers of the events a list of calls puts into the buffer, in order.\<close>

fun acceptedIds :: "EventContract obj \<Rightarrow> api_call list \<Rightarrow> string list" where
  "acceptedIds cs [] = []"
| "acceptedIds cs (Track uid e a ps # rest) =
     (if accepted cs e a ps then uid # acceptedIds cs rest else acceptedIds cs rest)"
| "acceptedIds cs (c # rest) = acceptedIds cs rest"

text \<open>A burst: \<open>track\<close> calls, with time passing between them only up to moments before
  \<open>d\<close>.\<close>

fun burstBefore :: "int \<Rightarrow> api_call list \<Rightarrow> bool" where
  "burstBefore d [] = True"
| "burstBefore d (Track uid e a ps # rest) = burstBefore d rest"
| "burstBefore d (AdvanceTo t # rest) = (t < d \<and> burstBefore d rest)"
| "burstBefore d (c # rest) = False"

section \<open>Notions of the proofs\<close>

text \<open>The state without the two parts a dispatch writes to: the consent queue and the
  pending promise reactions.\<close>

definition frameOf :: "Collector \<Rightarrow> Collector" where
  "frameOf s = s\<lparr> consent_mgr := (consent_mgr s)\<lparr> queue := [] \<rparr>, microtasks := [] \<rparr>"

text \<open>What no call ever changes.\<close>

definition staticOf ::
  "Collector \<Rightarrow> CreateCollectorOptions \<times> DestinationEntry obj \<times> EventContract obj \<times> BufferConfig \<times> ConsentConfig" where
  "staticOf s = (options s, destinations s, contracts s, bufferConfig s, cm_config (consent_mgr s))"

text \<open>What the timers of \<open>advanceTo\<close> leave alone unless the flush timer fires.\<close>

definition bufferOf :: "Collector \<Rightarrow> JctEvent list \<times> int option \<times> UserIdentity" where
  "bufferOf s = (buffer s, flushTimer s, current_user s)"

text \<open>A queued event as the change handler replays it: with the identity of the moment.\<close>

definition refreshed :: "Collector \<Rightarrow> QueuedEvent \<Rightarrow> JctEvent" where
  "refreshed s q = (event q)\<lparr> user := current_user s \<rparr>"

text \<open>The payload a destination is sent for an event, if any.\<close>

definition payloadOf :: "DestinationEntry \<Rightarrow> JctEvent \<Rightarrow> props list" where
  "payloadOf entry ev =
     (case transform (destination entry) ev of Returns (Some p) \<Rightarrow> [p] | _ \<Rightarrow> [])"

text \<open>The state the queue is replayed in when \<open>consent(update)\<close> is called and no
  \<open>onConsent\<close> throws.\<close>

definition replayState :: "ConsentState \<Rightarrow> Collector \<Rightarrow> Collector" where
  "replayState update s =
     s\<lparr> consent_mgr := (consent_mgr s)\<lparr> state := spread (state (consent_mgr s)) update,
                                         queue := [] \<rparr> \<rparr>"

section \<open>Fixtures\<close>

text \<open>The mock destination and the options of the collector's test suite.\<close>

definition mockDestination :: "string \<Rightarrow> string list \<Rightarrow> Destination" where
  "mockDestination nm cs =
     \<lparr> name = nm, dest_consent = cs,
       transform = (\<lambda>ev. Returns (Some [(''transformed'', JBool True), (''event'', JStr (event_id ev))])),
       send = (\<lambda>payload cfg. SendResolves),
       onConsent = Some (\<lambda>st. Returns ()) \<rparr>"

definition mockEntry :: "Destination \<Rightarrow> DestinationEntry" where
  "mockEntry d = \<lparr> destination = d, config = [], entry_consent = None, enabled = None \<rparr>"

definition makeOptions ::
  "ConsentState \<Rightarrow> int \<Rightarrow> BufferConfig \<Rightarrow> DestinationEntry list \<Rightarrow> EventContract list
   \<Rightarrow> CreateCollectorOptions" where
  "makeOptions dflt qt buf dests cs =
     \<lparr> opt_config =
         \<lparr> cfg_consent = \<lparr> defaultState = dflt, queueTimeout = qt,
                           respectDNT = False, respectGPC = False \<rparr>,
           cfg_destinations = dests,
           cfg_contracts = Some cs,
           cfg_globals = None,
           cfg_buffer = Some buf \<rparr>,
       opt_source = \<lparr> source_type = ''client'', source_name = ''test'', source_version = ''0.0.0'' \<rparr>,
       resolveContext = None \<rparr>"

definition testCollector ::
  "ConsentState \<Rightarrow> int \<Rightarrow> BufferConfig \<Rightarrow> DestinationEntry list \<Rightarrow> EventContract list
   \<Rightarrow> Collector" where
  "testCollector dflt qt buf dests cs =
     createCollector (makeOptions dflt qt buf dests cs) ''anon'' None 0"



definition skippingDestination :: "string \<Rightarrow> string list \<Rightarrow> Destination" where
  "skippingDestination nm cs = (mockDestination nm cs)\<lparr> transform := (\<lambda>ev. Returns None) \<rparr>"

definition throwingOnConsent :: "string \<Rightarrow> string list \<Rightarrow> Destination" where
  "throwingOnConsent nm cs = (mockDestination nm cs)\<lparr> onConsent := Some (\<lambda>st. Throws ''boom'') \<rparr>"

text \<open>The event \<open>track("page", "viewed")\<close> builds in a fresh test collector.\<close>

definition pageViewed :: "string \<Rightarrow> JctEvent" where
  "pageViewed uid =
     \<lparr> entity = ''page'', action = ''viewed'', properties = [], event_context = [],
       user = \<lparr> anonymousId = ''anon'', userId = None, traits = None \<rparr>,
       timestamp = 0, event_id = uid, version = ''1.0.0'',
       source = \<lparr> source_type = ''client'', source_name = ''test'', source_version = ''0.0.0'' \<rparr> \<rparr>"

definition queuedPage :: "string \<Rightarrow> int \<Rightarrow> QueuedEvent" where
  "queuedPage uid t = \<lparr> event = pageViewed uid, queuedAt = t \<rparr>"

definition pendingConsentConfig :: "int \<Rightarrow> ConsentConfig" where
  "pendingConsentConfig qt =
     \<lparr> defaultState = [], queueTimeout = qt, respectDNT = False, respectGPC = False \<rparr>"

text \<open>The contract of the test suite: \<open>product:viewed\<close> needs a non-empty
  \<open>product_id\<close> and a non-negative \<open>price\<close>.\<close>

definition productSchema :: "props \<Rightarrow> parse_result" where
  "productSchema p =
     (case (map_of p ''product_id'', map_of p ''price'') of
        (Some (JStr pid), Some (JNum n)) \<Rightarrow>
          (if pid \<noteq> [] \<and> 0 \<le> n
           then ParseSuccess [(''product_id'', JStr pid), (''price'', JNum n)]
           else ParseFailure
                  ((if pid = [] then [''product_id: too small''] else [])
                   @ (if n < 0 then [''price: too small''] else []))
          )
      | _ \<Rightarrow> ParseFailure [''invalid type''])"

definition productViewedContract :: "contract_mode \<Rightarrow> EventContract" where
  "productViewedContract m =
     \<lparr> contract_entity = ''product'', contract_action = ''viewed'', contract_version = ''1.0.0'',
       schema = productSchema, mode = m \<rparr>"




definition pendingCollector :: "int \<Rightarrow> DestinationEntry list \<Rightarrow> Collector" where
  "pendingCollector qt dests =
     testCollector [] qt \<lparr> maxSize = 10, maxWait = 2000 \<rparr> dests []"

definition onePending :: "DestinationEntry list" where
  "onePending = [mockEntry (mockDestination ''test-destination'' [''analytics''])]"

definition twoPending :: "DestinationEntry list" where
  "twoPending = [mockEntry (mockDestination ''a'' [''analytics'']),
                 mockEntry (skippingDestination ''b'' [''analytics''])]"

definition brokenThenGood :: "DestinationEntry list" where
  "brokenThenGood = [mockEntry (throwingOnConsent ''a'' [''analytics'']),
                     mockEntry (mockDestination ''b'' [''analytics''])]"

text \<open>The state of the consent tests when \<open>consent\<close> is called: one page view was tracked
  while \<open>analytics\<close> was undefined, and the flush timer has fired.\<close>

definition queuedState :: "DestinationEntry list \<Rightarrow> Collector" where
  "queuedState dests =
     snd (run [Track ''e1'' ''page'' ''viewed'' None, AdvanceTo 3000] (pendingCollector 30000 dests))"

definition bufferCollector :: "int \<Rightarrow> int \<Rightarrow> Collector" where
  "bufferCollector n w =
     testCollector [(''analytics'', True)] 30000 \<lparr> maxSize = n, maxWait = w \<rparr>
       [mockEntry (mockDestination ''test-destination'' [''analytics''])] []"

section \<open>Frames: what each operation leaves alone\<close>

lemma transformCalls_append [simp]:
  "transformCalls n (xs @ ys) = transformCalls n xs @ transformCalls n ys"
  by (induction n xs rule: transformCalls.induct) simp_all

lemma sendCalls_append [simp]:
  "sendCalls n (xs @ ys) = sendCalls n xs @ sendCalls n ys"
  by (induction n xs rule: sendCalls.induct) simp_all

lemma dispatched_append [simp]: "dispatched (xs @ ys) = dispatched xs @ dispatched ys"
  by (induction xs rule: dispatched.induct) simp_all

lemma enqueued_append [simp]: "enqueued (xs @ ys) = enqueued xs @ enqueued ys"
  by (induction xs rule: enqueued.induct) simp_all

lemma destinationCalls_append [simp]:
  "destinationCalls (xs @ ys) = destinationCalls xs @ destinationCalls ys"
  by (induction xs rule: destinationCalls.induct) simp_all

lemma onConsentCalls_append [simp]:
  "onConsentCalls (xs @ ys) = onConsentCalls xs @ onConsentCalls ys"
  by (induction xs rule: onConsentCalls.induct) simp_all

lemma isAllowed_state: "state cm' = state cm \<Longrightarrow> isAllowed cm' r = isAllowed cm r"
  by (simp add: isAllowed_def)

lemma runMicrotasks_dispatched [simp]: "dispatched (fst (runMicrotasks s)) = []"
proof -
  have "dispatched (map (\<lambda>(ty, p). Emit ty p) ms) = []" for ms
    by (induction ms) auto
  then show ?thesis by (simp add: runMicrotasks_def)
qed

text \<open>Validation and the pending promise reactions call no destination.\<close>

lemma validate_quiet [simp]:
  "destinationCalls (fst (validate cs ev)) = []"
  "transformCalls n (fst (validate cs ev)) = []"
  "sendCalls n (fst (validate cs ev)) = []"
  by (simp_all add: validate_def split: option.split parse_result.split)

lemma runMicrotasks_quiet [simp]:
  "destinationCalls (fst (runMicrotasks s)) = []"
  "transformCalls n (fst (runMicrotasks s)) = []"
  "sendCalls n (fst (runMicrotasks s)) = []"
proof -
  have "destinationCalls (map (\<lambda>(ty, p). Emit ty p) ms) = []
        \<and> transformCalls n (map (\<lambda>(ty, p). Emit ty p) ms) = []
        \<and> sendCalls n (map (\<lambda>(ty, p). Emit ty p) ms) = []" for ms
    by (induction ms) auto
  then show "destinationCalls (fst (runMicrotasks s)) = []"
    and "transformCalls n (fst (runMicrotasks s)) = []"
    and "sendCalls n (fst (runMicrotasks s)) = []"
    by (simp_all add: runMicrotasks_def)
qed

lemma frameD:
  assumes "frameOf s' = frameOf s"
  shows "destinations s' = destinations s"
    and "state (consent_mgr s') = state (consent_mgr s)"
    and "cm_config (consent_mgr s') = cm_config (consent_mgr s)"
    and "nextSweep (consent_mgr s') = nextSweep (consent_mgr s)"
    and "buffer s' = buffer s"
    and "flushTimer s' = flushTimer s"
    and "bufferConfig s' = bufferConfig s"
    and "clock s' = clock s"
    and "current_user s' = current_user s"
    and "options s' = options s"
    and "contracts s' = contracts s"
proof -
  have "destinations (frameOf s') = destinations (frameOf s)"
    "state (consent_mgr (frameOf s')) = state (consent_mgr (frameOf s))"
    "cm_config (consent_mgr (frameOf s')) = cm_config (consent_mgr (frameOf s))"
    "nextSweep (consent_mgr (frameOf s')) = nextSweep (consent_mgr (frameOf s))"
    "buffer (frameOf s') = buffer (frameOf s)"
    "flushTimer (frameOf s') = flushTimer (frameOf s)"
    "bufferConfig (frameOf s') = bufferConfig (frameOf s)"
    "clock (frameOf s') = clock (frameOf s)"
    "current_user (frameOf s') = current_user (frameOf s)"
    "options (frameOf s') = options (frameOf s)"
    "contracts (frameOf s') = contracts (frameOf s)"
    using assms by simp_all
  then show "destinations s' = destinations s"
    and "state (consent_mgr s') = state (consent_mgr s)"
    and "cm_config (consent_mgr s') = cm_config (consent_mgr s)"
    and "nextSweep (consent_mgr s') = nextSweep (consent_mgr s)"
    and "buffer s' = buffer s"
    and "flushTimer s' = flushTimer s"
    and "bufferConfig s' = bufferConfig s"
    and "clock s' = clock s"
    and "current_user s' = current_user s"
    and "options s' = options s"
    and "contracts s' = contracts s"
    by (simp_all add: frameOf_def)
qed

lemma frame_isAllowed: "frameOf s' = frameOf s \<Longrightarrow> isAllowed (consent_mgr s') r = isAllowed (consent_mgr s) r"
  using frameD(2) [of s' s] by (simp add: isAllowed_def)

lemma frame_isPending: "frameOf s' = frameOf s \<Longrightarrow> isPending (consent_mgr s') r = isPending (consent_mgr s) r"
  using frameD(2) [of s' s] by (simp add: isPending_def)

lemma dispatchEntry_frame [simp]: "frameOf (snd (dispatchEntry ev ne s)) = frameOf s"
  by (simp add: dispatchEntry_def frameOf_def enqueue_def Let_def
           split: outcome.split option.split send_outcome.split)

lemma dispatchEntry_effects_frame:
  assumes "frameOf s' = frameOf s"
  shows "fst (dispatchEntry ev ne s') = fst (dispatchEntry ev ne s)"
  using frame_isAllowed [OF assms, of "requiredConsent (snd ne)"]
        frame_isPending [OF assms, of "requiredConsent (snd ne)"]
  by (simp add: dispatchEntry_def Let_def
           split: outcome.split option.split send_outcome.split)

lemma dispatchLoop_frame [simp]: "frameOf (snd (dispatchLoop ev ds s)) = frameOf s"
  by (induction ds arbitrary: s) (simp_all add: Let_def)

lemma dispatchLoop_effects:
  "fst (dispatchLoop ev ds s) = concat (map (\<lambda>ne. fst (dispatchEntry ev ne s)) ds)"
proof (induction ds arbitrary: s)
  case Nil
  show ?case by simp
next
  case (Cons ne ds)
  have "fst (dispatchLoop ev ds (snd (dispatchEntry ev ne s)))
        = concat (map (\<lambda>x. fst (dispatchEntry ev x (snd (dispatchEntry ev ne s)))) ds)"
    by (rule Cons.IH)
  also have "\<dots> = concat (map (\<lambda>x. fst (dispatchEntry ev x s)) ds)"
    using dispatchEntry_effects_frame [OF dispatchEntry_frame] by simp
  finally show ?case by (simp add: Let_def)
qed

lemma dispatchToDestinations_frame [simp]: "frameOf (snd (dispatchToDestinations ev s)) = frameOf s"
  by (simp add: dispatchToDestinations_def Let_def)

lemma dispatchAll_frame [simp]: "frameOf (snd (dispatchAll evs s)) = frameOf s"
  by (induction evs arbitrary: s) (simp_all add: Let_def)

lemma static_of_frame: "frameOf s' = frameOf s \<Longrightarrow> staticOf s' = staticOf s"
  using frameD [of s' s] by (simp add: staticOf_def)

lemma staticD:
  assumes "staticOf s' = staticOf s"
  shows "options s' = options s" and "destinations s' = destinations s"
    and "contracts s' = contracts s" and "bufferConfig s' = bufferConfig s"
    and "cm_config (consent_mgr s') = cm_config (consent_mgr s)"
  using assms by (simp_all add: staticOf_def)

lemma flushBuffer_static [simp]: "staticOf (snd (flushBuffer s)) = staticOf s"
proof -
  have "staticOf (snd (dispatchAll evs s')) = staticOf s'" for evs s'
    by (rule static_of_frame) simp
  then show ?thesis by (simp add: flushBuffer_def Let_def staticOf_def)
qed

lemma scheduleFlush_static [simp]: "staticOf (scheduleFlush s) = staticOf s"
  by (simp add: scheduleFlush_def staticOf_def split: option.split)

lemma track_static [simp]: "staticOf (snd (track uid ent act ps s)) = staticOf s"
proof -
  have "staticOf (snd (flushBuffer s')) = staticOf s'" for s' by simp
  note fb = this
  show ?thesis
    using fb [of "s\<lparr>buffer := buffer s @ [result_event (snd (validate (contracts s) (buildEvent uid ent act ps s)))]\<rparr>"]
    by (simp add: track_def Let_def) (simp add: staticOf_def)
qed

lemma identify_static [simp]: "staticOf (snd (identify uid u ts s)) = staticOf s"
  by (simp add: identify_def Let_def) (simp add: staticOf_def)

lemma redispatch_frame [simp]: "frameOf (snd (redispatch queued s)) = frameOf s"
  by (simp add: redispatch_def)

lemma changeHandler_static [simp]: "staticOf (fst (snd (changeHandler st s))) = staticOf s"
proof -
  have "staticOf (snd (redispatch q s')) = staticOf s'" for q s'
    by (rule static_of_frame) simp
  then show ?thesis
    by (simp add: changeHandler_def Let_def drain_def split: option.split)
       (simp add: staticOf_def)
qed

lemma setState_static [simp]: "staticOf (snd (setState update s)) = staticOf s"
  by (simp add: setState_def Let_def split: option.split) (simp add: staticOf_def)

lemma consent_static [simp]: "staticOf (snd (consent update s)) = staticOf s"
  by (simp add: consent_def)

lemma fireSweep_static [simp]: "staticOf (fireSweep s) = staticOf s"
  by (simp add: fireSweep_def Let_def staticOf_def sweep_def)

lemma runSweeps_static [simp]: "staticOf (runSweeps t s) = staticOf s"
proof (induction t s rule: runSweeps.induct)
  case (1 t s)
  show ?case
  proof (cases "sweepDue t s")
    case True
    then have "runSweeps t s = runSweeps t (fireSweep s)" by (subst runSweeps.simps) simp
    with True "1.IH" show ?thesis by simp
  next
    case False
    then have "runSweeps t s = s" by (subst runSweeps.simps) simp
    then show ?thesis by simp
  qed
qed

lemma runMicrotasks_static [simp]: "staticOf (snd (runMicrotasks s)) = staticOf s"
  by (simp add: runMicrotasks_def staticOf_def)

lemma settle_static [simp]: "staticOf (settle t s) = staticOf s"
proof -
  have "staticOf (runSweeps t s) = staticOf s" by simp
  then show ?thesis by (simp add: settle_def Let_def staticOf_def)
qed

lemma fireFlushTimer_static [simp]: "staticOf (snd (fireFlushTimer d s)) = staticOf s"
proof -
  have "staticOf (snd (flushBuffer (s\<lparr>clock := max (clock s) d\<rparr>))) = staticOf (s\<lparr>clock := max (clock s) d\<rparr>)"
    by simp
  then show ?thesis by (simp add: fireFlushTimer_def Let_def) (simp add: staticOf_def)
qed

lemma advanceTo_static [simp]: "staticOf (snd (advanceTo t s)) = staticOf s"
  by (simp add: advanceTo_def Let_def split: option.split)

lemma applyCall_static [simp]: "staticOf (snd (applyCall c s)) = staticOf s"
  by (cases c) (simp_all add: flush_def)

lemma run_static [simp]: "staticOf (snd (run cs s)) = staticOf s"
  by (induction cs arbitrary: s) (simp_all add: Let_def)

section \<open>The consent queue under dispatch\<close>

lemma frame_blockedPending:
  assumes "frameOf s' = frameOf s"
  shows "blockedPending (consent_mgr s') ne = blockedPending (consent_mgr s) ne"
  using frame_isAllowed [OF assms] frame_isPending [OF assms]
  by (simp add: blockedPending_def)

lemma dispatchEntry_queue:
  "queue (consent_mgr (snd (dispatchEntry ev ne s)))
   = queue (consent_mgr s)
     @ (if blockedPending (consent_mgr s) ne \<and> queueTimeout (cm_config (consent_mgr s)) \<noteq> 0
        then [\<lparr> event = ev, queuedAt = clock s \<rparr>] else [])"
  by (simp add: dispatchEntry_def blockedPending_def enqueue_def Let_def
           split: outcome.split option.split send_outcome.split)


lemma dispatchLoop_queue:
  "queue (consent_mgr (snd (dispatchLoop ev ds s)))
   = queue (consent_mgr s)
     @ (if queueTimeout (cm_config (consent_mgr s)) \<noteq> 0
        then replicate (length (filter (blockedPending (consent_mgr s)) ds))
               \<lparr> event = ev, queuedAt = clock s \<rparr>
        else [])"
proof (induction ds arbitrary: s)
  case Nil
  show ?case by simp
next
  case (Cons ne ds)
  let ?s1 = "snd (dispatchEntry ev ne s)"
  have fr: "frameOf ?s1 = frameOf s" by simp
  have bp: "blockedPending (consent_mgr ?s1) = blockedPending (consent_mgr s)"
    using frame_blockedPending [OF fr] by (simp add: fun_eq_iff)
  show ?case
    using Cons.IH [of ?s1] frameD(3) [OF fr] frameD(8) [OF fr]
    by (simp add: Let_def bp dispatchEntry_queue)
qed



text \<open>With queuing switched off, nothing ever enters the queue.\<close>

lemma dispatchAll_queue_off:
  "queueTimeout (cm_config (consent_mgr s)) = 0
   \<Longrightarrow> queue (consent_mgr (snd (dispatchAll evs s))) = queue (consent_mgr s)"
proof (induction evs arbitrary: s)
  case Nil
  show ?case by simp
next
  case (Cons ev evs)
  let ?s1 = "snd (dispatchToDestinations ev s)"
  have fr: "frameOf ?s1 = frameOf s" by simp
  have q1: "queue (consent_mgr ?s1) = queue (consent_mgr s)"
    using Cons.prems by (simp add: dispatchToDestinations_def Let_def dispatchLoop_queue)
  have "queueTimeout (cm_config (consent_mgr ?s1)) = 0"
    using frameD(3) [OF fr] Cons.prems by simp
  from Cons.IH [OF this] q1 show ?case by (simp add: Let_def)
qed

lemma flushBuffer_queue_off:
  "queueTimeout (cm_config (consent_mgr s)) = 0
   \<Longrightarrow> queue (consent_mgr (snd (flushBuffer s))) = queue (consent_mgr s)"
  using dispatchAll_queue_off [of "s\<lparr>flushTimer := None, buffer := []\<rparr>" "buffer s"]
  by (simp add: flushBuffer_def Let_def)

lemma track_queue_off:
  "queueTimeout (cm_config (consent_mgr s)) = 0
   \<Longrightarrow> queue (consent_mgr (snd (track uid ent act ps s))) = queue (consent_mgr s)"
  using flushBuffer_queue_off
    [of "s\<lparr>buffer := buffer s @ [result_event (snd (validate (contracts s) (buildEvent uid ent act ps s)))]\<rparr>"]
  by (simp add: track_def Let_def scheduleFlush_def split: option.split)

lemma identify_queue_off:
  "queueTimeout (cm_config (consent_mgr s)) = 0
   \<Longrightarrow> queue (consent_mgr (snd (identify uid u ts s))) = queue (consent_mgr s)"
  by (simp add: identify_def Let_def track_queue_off)

lemma consent_queue_off:
  assumes "queueTimeout (cm_config (consent_mgr s)) = 0" and "queue (consent_mgr s) = []"
  shows "queue (consent_mgr (snd (consent update s))) = []"
  using assms
  by (simp add: consent_def setState_def changeHandler_def drain_def redispatch_def Let_def
           split: option.split)

lemma runSweeps_off:
  "queueTimeout (cm_config (consent_mgr s)) = 0 \<Longrightarrow> runSweeps t s = s"
  by (subst runSweeps.simps) (simp add: sweepDue_def)

lemma advanceTo_queue_off:
  assumes "queueTimeout (cm_config (consent_mgr s)) = 0"
  shows "queue (consent_mgr (snd (advanceTo t s))) = queue (consent_mgr s)"
proof -
  let ?s0 = "s\<lparr>microtasks := []\<rparr>"
  have off: "queueTimeout (cm_config (consent_mgr (x\<lparr>clock := c\<rparr>))) = 0"
    if "queueTimeout (cm_config (consent_mgr x)) = 0" for x c using that by simp
  have fb: "queue (consent_mgr (snd (flushBuffer (?s0\<lparr>clock := c\<rparr>)))) = queue (consent_mgr s)" for c
    using flushBuffer_queue_off [of "?s0\<lparr>clock := c\<rparr>"] assms by simp
  have off2: "queueTimeout (cm_config (consent_mgr (snd (flushBuffer (?s0\<lparr>clock := c\<rparr>))))) = 0" for c
    using staticD(5) [OF flushBuffer_static, of "?s0\<lparr>clock := c\<rparr>"] assms by simp
  show ?thesis
    using assms
    by (simp add: advanceTo_def settle_def fireFlushTimer_def runMicrotasks_def Let_def
                  runSweeps_off fb off2 split: option.split)
qed

lemma applyCall_queue_off:
  assumes "queueTimeout (cm_config (consent_mgr s)) = 0" and "queue (consent_mgr s) = []"
  shows "queue (consent_mgr (snd (applyCall c s))) = []"
  using assms
  by (cases c)
     (simp_all add: track_queue_off identify_queue_off consent_queue_off flush_def
        flushBuffer_queue_off advanceTo_queue_off runMicrotasks_def)

lemma run_queue_off:
  assumes "queueTimeout (cm_config (consent_mgr s)) = 0" and "queue (consent_mgr s) = []"
  shows "queue (consent_mgr (snd (run cs s))) = []"
  using assms
proof (induction cs arbitrary: s)
  case Nil
  then show ?case by simp
next
  case (Cons c cs)
  have "queueTimeout (cm_config (consent_mgr (snd (applyCall c s)))) = 0"
    using staticD(5) [OF applyCall_static, of c s] Cons.prems(1) by simp
  from Cons.IH [OF this applyCall_queue_off [OF Cons.prems]] show ?case by (simp add: Let_def)
qed

section \<open>Consent manager: what is allowed, when a sweep is due\<close>

lemma runSweeps_not_due: "\<not> sweepDue t (runSweeps t s)"
proof (induction t s rule: runSweeps.induct)
  case (1 t s)
  show ?case
  proof (cases "sweepDue t s")
    case True
    then have "runSweeps t s = runSweeps t (fireSweep s)" by (subst runSweeps.simps) simp
    with True "1.IH" show ?thesis by simp
  next
    case False
    then have "runSweeps t s = s" by (subst runSweeps.simps) simp
    with False show ?thesis by simp
  qed
qed

lemma settle_next_sweep:
  assumes "0 < queueTimeout (cm_config (consent_mgr s))"
  shows "t < nextSweep (consent_mgr (settle t s))"
proof -
  have "queueTimeout (cm_config (consent_mgr (runSweeps t s))) = queueTimeout (cm_config (consent_mgr s))"
    using staticD(5) [OF runSweeps_static, of t s] by simp
  with assms runSweeps_not_due [of t s] have "t < nextSweep (consent_mgr (runSweeps t s))"
    by (simp add: sweepDue_def)
  then show ?thesis by (simp add: settle_def Let_def)
qed

lemma advanceTo_next_sweep:
  assumes "0 < queueTimeout (cm_config (consent_mgr s))"
  shows "t < nextSweep (consent_mgr (snd (advanceTo t s)))"
proof -
  have pos: "0 < queueTimeout (cm_config (consent_mgr x))" if "staticOf x = staticOf s" for x
    using staticD(5) [OF that] assms by simp
  have a: "t < nextSweep (consent_mgr (settle t (snd (runMicrotasks s))))"
    by (rule settle_next_sweep, rule pos) simp
  have b: "t < nextSweep (consent_mgr (settle t (snd (fireFlushTimer d (runSweeps d (snd (runMicrotasks s)))))))" for d
    by (rule settle_next_sweep, rule pos) simp
  show ?thesis
    using a b by (simp add: advanceTo_def Let_def split: option.split)
qed

text \<open>
  C5, as the code has it: for every consent state \<open>isAllowed\<close> is true for the empty
  requirement list and for a list made of \<open>necessary\<close> only, whatever value is stored
  for \<open>necessary\<close>; every other list, also one that names \<open>necessary\<close> next to other
  categories, is allowed exactly when one of its categories is stored as \<open>true\<close>.
\<close>

theorem isAllowed_necessary:
  "isAllowed cm []
   \<and> (list_all (\<lambda>c. c = ''necessary'') required \<longrightarrow> isAllowed cm required)
   \<and> (\<not> list_all (\<lambda>c. c = ''necessary'') required \<longrightarrow>
        isAllowed cm required = (\<exists>c \<in> set required. map_of (state cm) c = Some True))"
  by (auto simp: isAllowed_def list_ex_iff)

theorem isAllowed_necessary_witness:
  "isAllowed (createConsentManager ((pendingConsentConfig 30000)\<lparr> defaultState := [(''necessary'', False)] \<rparr>) None 0)
     [''necessary'', ''necessary'']
   \<and> isAllowed (createConsentManager ((pendingConsentConfig 30000)\<lparr> defaultState := [(''necessary'', True)] \<rparr>) None 0)
     [''necessary'', ''analytics'']"
proof -
  have h1: "list_all (\<lambda>c. c = ''necessary'') [''necessary'', ''necessary'']" by simp
  have h2: "\<not> list_all (\<lambda>c. c = ''necessary'') [''necessary'', ''analytics'']" by simp
  show ?thesis
    using isAllowed_necessary [of "createConsentManager ((pendingConsentConfig 30000)\<lparr> defaultState := [(''necessary'', False)] \<rparr>) None 0" "[''necessary'', ''necessary'']"]
          isAllowed_necessary [of "createConsentManager ((pendingConsentConfig 30000)\<lparr> defaultState := [(''necessary'', True)] \<rparr>) None 0" "[''necessary'', ''analytics'']"]
          h1 h2
    by (simp add: createConsentManager_def pendingConsentConfig_def spread_def)
qed

text \<open>
  C5 as stated fails: with nothing stored, the list \<open>[necessary, analytics]\<close> contains
  \<open>necessary\<close> and is not allowed. The same holds with \<open>necessary\<close> stored as \<open>false\<close>.
\<close>

theorem isAllowed_mixed_necessary_counterexample:
  "\<not> isAllowed (createConsentManager (pendingConsentConfig 30000) None 0) [''necessary'', ''analytics'']
   \<and> \<not> isAllowed (createConsentManager ((pendingConsentConfig 30000)\<lparr> defaultState := [(''necessary'', False)] \<rparr>) None 0)
         [''necessary'', ''analytics'']"
  by (simp add: isAllowed_def createConsentManager_def pendingConsentConfig_def spread_def)

section \<open>Validation\<close>

lemma map_of_map_set [simp]: "map_of (map_set k v m) k = Some v"
  by (induction m) auto

lemma findContract_register:
  "findContract (register c cs) (contract_entity c) (contract_action c) = Some c"
  by (simp add: findContract_def register_def)

text \<open>
  C6: when the contract found for an event is in strict mode and its schema rejects the
  properties, \<open>validate\<close> returns \<open>valid = false\<close> with the event as it was given and
  the schema's error, and \<open>track\<close> emits \<open>event:invalid\<close> and nothing else: the state is
  the one before the call, so the buffer does not hold the event, no destination is
  called, and every later run of the collector is the run it would have been without
  the call. A contract that was just registered is the one found for its own entity
  and action.
\<close>

theorem strict_contract_drops_event:
  "(findContract cs (entity ev) (action ev) = Some c \<and> mode c = Strict
      \<and> schema c (properties ev) = ParseFailure err \<longrightarrow>
      validate cs ev
        = ([], \<lparr> valid = False, result_event = ev, errors = Some err, coerced = None \<rparr>))
   \<and> (findContract (contracts s) ent act = Some c \<and> mode c = Strict
      \<and> schema c (case ps of None \<Rightarrow> [] | Some p \<Rightarrow> p) = ParseFailure err \<longrightarrow>
      track uid ent act ps s
        = ([Emit EventInvalid (PInvalid (buildEvent uid ent act ps s) (Some err))], s)
      \<and> buffer (snd (track uid ent act ps s)) = buffer s
      \<and> dispatched (fst (track uid ent act ps s)) = []
      \<and> transformCalls n (fst (track uid ent act ps s)) = []
      \<and> run calls (snd (track uid ent act ps s)) = run calls s)
   \<and> findContract (register c cs) (contract_entity c) (contract_action c) = Some c"
proof (intro conjI impI)
  assume "findContract cs (entity ev) (action ev) = Some c \<and> mode c = Strict
          \<and> schema c (properties ev) = ParseFailure err"
  then show "validate cs ev
             = ([], \<lparr> valid = False, result_event = ev, errors = Some err, coerced = None \<rparr>)"
    by (simp add: validate_def)
next
  assume a: "findContract (contracts s) ent act = Some c \<and> mode c = Strict
          \<and> schema c (case ps of None \<Rightarrow> [] | Some p \<Rightarrow> p) = ParseFailure err"
  then have v: "validate (contracts s) (buildEvent uid ent act ps s)
        = ([], \<lparr> valid = False, result_event = buildEvent uid ent act ps s,
                 errors = Some err, coerced = None \<rparr>)"
    by (simp add: validate_def buildEvent_def)
  then show t: "track uid ent act ps s
        = ([Emit EventInvalid (PInvalid (buildEvent uid ent act ps s) (Some err))], s)"
    by (simp add: track_def Let_def)
  then show "buffer (snd (track uid ent act ps s)) = buffer s"
    and "dispatched (fst (track uid ent act ps s)) = []"
    and "transformCalls n (fst (track uid ent act ps s)) = []"
    and "run calls (snd (track uid ent act ps s)) = run calls s"
    by simp_all
next
  show "findContract (register c cs) (contract_entity c) (contract_action c) = Some c"
    by (rule findContract_register)
qed

theorem strict_contract_drops_event_witness:
  "track ''e1'' ''product'' ''viewed'' (Some [(''product_id'', JStr ''''), (''price'', JNum (- 1))])
     (testCollector [(''analytics'', True)] 30000 \<lparr> maxSize = 10, maxWait = 2000 \<rparr>
        [mockEntry (mockDestination ''test-destination'' [''analytics''])]
        [productViewedContract Strict])
   = ([Emit EventInvalid
         (PInvalid
            (buildEvent ''e1'' ''product'' ''viewed''
               (Some [(''product_id'', JStr ''''), (''price'', JNum (- 1))])
               (testCollector [(''analytics'', True)] 30000 \<lparr> maxSize = 10, maxWait = 2000 \<rparr>
                  [mockEntry (mockDestination ''test-destination'' [''analytics''])]
                  [productViewedContract Strict]))
            (Some [''product_id: too small'', ''price: too small'']))],
      testCollector [(''analytics'', True)] 30000 \<lparr> maxSize = 10, maxWait = 2000 \<rparr>
        [mockEntry (mockDestination ''test-destination'' [''analytics''])]
        [productViewedContract Strict])"
proof -
  let ?s = "testCollector [(''analytics'', True)] 30000 \<lparr> maxSize = 10, maxWait = 2000 \<rparr>
        [mockEntry (mockDestination ''test-destination'' [''analytics''])]
        [productViewedContract Strict]"
  let ?ps = "Some [(''product_id'', JStr ''''), (''price'', JNum (- 1))]"
  have h: "findContract (contracts ?s) ''product'' ''viewed'' = Some (productViewedContract Strict)
           \<and> mode (productViewedContract Strict) = Strict
           \<and> schema (productViewedContract Strict) (case ?ps of None \<Rightarrow> [] | Some p \<Rightarrow> p)
               = ParseFailure [''product_id: too small'', ''price: too small'']"
    by (simp add: testCollector_def createCollector_def makeOptions_def register_def
                  findContract_def key_def productViewedContract_def productSchema_def)
  show ?thesis
    using strict_contract_drops_event
            [of _ _ "productViewedContract Strict" _ ?s "''product''" "''viewed''" ?ps] h
    by simp
qed

section \<open>Dispatch\<close>

lemma dispatchEntry_transformCalls:
  "transformCalls n (fst (dispatchEntry ev ne s))
   = (if fst ne = n \<and> isAllowed (consent_mgr s) (requiredConsent (snd ne)) then [ev] else [])"
  by (simp add: dispatchEntry_def Let_def
           split: outcome.split option.split send_outcome.split)

lemma dispatchEntry_sendCalls:
  "sendCalls n (fst (dispatchEntry ev ne s))
   = (if fst ne = n \<and> isAllowed (consent_mgr s) (requiredConsent (snd ne))
      then (case transform (destination (snd ne)) ev of Returns (Some p) \<Rightarrow> [p] | _ \<Rightarrow> [])
      else [])"
  by (simp add: dispatchEntry_def Let_def
           split: outcome.split option.split send_outcome.split)

lemma dispatchEntry_dispatched [simp]: "dispatched (fst (dispatchEntry ev ne s)) = []"
  by (simp add: dispatchEntry_def Let_def
           split: outcome.split option.split send_outcome.split)

lemma dispatchLoop_dispatched [simp]: "dispatched (fst (dispatchLoop ev ds s)) = []"
  unfolding dispatchLoop_effects by (induction ds) simp_all

lemma dispatchLoop_append:
  "fst (dispatchLoop ev (xs @ ys) s) = fst (dispatchLoop ev xs s) @ fst (dispatchLoop ev ys s)"
  unfolding dispatchLoop_effects by simp

lemma dispatchLoop_Cons:
  "fst (dispatchLoop ev (ne # ys) s) = fst (dispatchEntry ev ne s) @ fst (dispatchLoop ev ys s)"
  unfolding dispatchLoop_effects by simp

lemma dispatchLoop_other_transformCalls:
  "n \<notin> fst ` set ds \<Longrightarrow> transformCalls n (fst (dispatchLoop ev ds s)) = []"
  unfolding dispatchLoop_effects
  by (induction ds) (auto simp: dispatchEntry_transformCalls)

lemma dispatchLoop_other_sendCalls:
  "n \<notin> fst ` set ds \<Longrightarrow> sendCalls n (fst (dispatchLoop ev ds s)) = []"
  unfolding dispatchLoop_effects
  by (induction ds) (auto simp: dispatchEntry_sendCalls)

lemma distinct_split_names:
  assumes "distinct (map fst (pre @ (n, e) # post))"
  shows "n \<notin> fst ` set pre" and "n \<notin> fst ` set post"
  using assms by auto

lemma dispatchToDestinations_effects:
  "fst (dispatchToDestinations ev s)
   = Dispatch ev # concat (map (\<lambda>ne. fst (dispatchEntry ev ne s)) (destinations s))"
  by (simp add: dispatchToDestinations_def Let_def dispatchLoop_effects)

lemma dispatchToDestinations_split:
  assumes "destinations s = pre @ ne # post"
  shows "fst (dispatchToDestinations ev s)
         = Dispatch ev # fst (dispatchLoop ev pre s) @ fst (dispatchEntry ev ne s)
           @ fst (dispatchLoop ev post s)"
  using assms by (simp add: dispatchToDestinations_effects dispatchLoop_effects)



lemma dispatchEntry_microtasks_mono:
  "\<exists>m. microtasks (snd (dispatchEntry ev ne s)) = microtasks s @ m"
  by (simp add: dispatchEntry_def Let_def split: outcome.split option.split send_outcome.split)




section \<open>Consent gating\<close>

lemma dispatchToDestinations_queue:
  "queue (consent_mgr (snd (dispatchToDestinations ev s)))
   = queue (consent_mgr s)
     @ (if queueTimeout (cm_config (consent_mgr s)) \<noteq> 0
        then replicate (length (filter (blockedPending (consent_mgr s)) (destinations s)))
               \<lparr> event = ev, queuedAt = clock s \<rparr>
        else [])"
  by (simp add: dispatchToDestinations_def Let_def dispatchLoop_queue)







section \<open>Consent changes\<close>

lemma map_of_spread:
  "map_of (spread a b) k = (case map_of b k of Some v \<Rightarrow> Some v | None \<Rightarrow> map_of a k)"
proof -
  have 1: "map_of (map (\<lambda>(k, v). (k, case map_of b k of Some w \<Rightarrow> w | None \<Rightarrow> v)) a) k
           = (case map_of a k of None \<Rightarrow> None
              | Some v \<Rightarrow> Some (case map_of b k of Some w \<Rightarrow> w | None \<Rightarrow> v))"
    by (induction a) (auto split: option.split)
  have 2: "map_of (filter (\<lambda>(k, w). map_of a k = None) b) k
           = (if map_of a k = None then map_of b k else None)"
    by (induction b) auto
  show ?thesis
    by (simp add: spread_def map_add_def 1 2 split: option.split)
qed

lemma notifyDestinations_quiet [simp]:
  "transformCalls n (fst (notifyDestinations ds st)) = []"
  "sendCalls n (fst (notifyDestinations ds st)) = []"
  "dispatched (fst (notifyDestinations ds st)) = []"
  "enqueued (fst (notifyDestinations ds st)) = []"
  by (induction ds) (simp_all add: Let_def split: option.split outcome.split)

lemma dispatchToDestinations_dispatched [simp]:
  "dispatched (fst (dispatchToDestinations ev s)) = [ev]"
  by (simp add: dispatchToDestinations_def Let_def)

lemma dispatchAll_dispatched [simp]: "dispatched (fst (dispatchAll evs s)) = evs"
  by (induction evs arbitrary: s) (simp_all add: Let_def)

lemma dispatchToDestinations_transformCalls:
  assumes "(n, entry) \<in> set (destinations s)" and "distinct (map fst (destinations s))"
  shows "transformCalls n (fst (dispatchToDestinations ev s))
         = (if isAllowed (consent_mgr s) (requiredConsent entry) then [ev] else [])"
proof -
  from assms(1) obtain pre post where reg: "destinations s = pre @ (n, entry) # post"
    by (auto simp: in_set_conv_decomp)
  have names: "n \<notin> fst ` set pre" "n \<notin> fst ` set post"
    using assms(2) reg by auto
  show ?thesis
    using dispatchToDestinations_split [OF reg, of ev]
      dispatchLoop_other_transformCalls [OF names(1)]
      dispatchLoop_other_transformCalls [OF names(2)]
    by (simp add: dispatchEntry_transformCalls)
qed

lemma dispatchToDestinations_sendCalls:
  assumes "(n, entry) \<in> set (destinations s)" and "distinct (map fst (destinations s))"
  shows "sendCalls n (fst (dispatchToDestinations ev s))
         = (if isAllowed (consent_mgr s) (requiredConsent entry) then payloadOf entry ev else [])"
proof -
  from assms(1) obtain pre post where reg: "destinations s = pre @ (n, entry) # post"
    by (auto simp: in_set_conv_decomp)
  have names: "n \<notin> fst ` set pre" "n \<notin> fst ` set post"
    using assms(2) reg by auto
  show ?thesis
    using dispatchToDestinations_split [OF reg, of ev]
      dispatchLoop_other_sendCalls [OF names(1)]
      dispatchLoop_other_sendCalls [OF names(2)]
    by (simp add: dispatchEntry_sendCalls payloadOf_def)
qed

lemma dispatchAll_transformCalls:
  assumes "(n, entry) \<in> set (destinations s)" and "distinct (map fst (destinations s))"
      and "isAllowed (consent_mgr s) (requiredConsent entry)"
  shows "transformCalls n (fst (dispatchAll evs s)) = evs"
  using assms
proof (induction evs arbitrary: s)
  case Nil
  show ?case by simp
next
  case (Cons ev evs)
  let ?s1 = "snd (dispatchToDestinations ev s)"
  have fr: "frameOf ?s1 = frameOf s" by simp
  have d: "destinations ?s1 = destinations s" by (rule frameD(1) [OF fr])
  have a: "isAllowed (consent_mgr ?s1) (requiredConsent entry)"
    using frame_isAllowed [OF fr] Cons.prems(3) by simp
  have "transformCalls n (fst (dispatchAll evs ?s1)) = evs"
    using Cons.IH [of ?s1] Cons.prems(1,2) d a by simp
  then show ?case
    using dispatchToDestinations_transformCalls [OF Cons.prems(1,2), of ev] Cons.prems(3)
    by (simp add: Let_def)
qed

lemma dispatchAll_sendCalls:
  assumes "(n, entry) \<in> set (destinations s)" and "distinct (map fst (destinations s))"
      and "isAllowed (consent_mgr s) (requiredConsent entry)"
  shows "sendCalls n (fst (dispatchAll evs s)) = concat (map (payloadOf entry) evs)"
  using assms
proof (induction evs arbitrary: s)
  case Nil
  show ?case by simp
next
  case (Cons ev evs)
  let ?s1 = "snd (dispatchToDestinations ev s)"
  have fr: "frameOf ?s1 = frameOf s" by simp
  have d: "destinations ?s1 = destinations s" by (rule frameD(1) [OF fr])
  have a: "isAllowed (consent_mgr ?s1) (requiredConsent entry)"
    using frame_isAllowed [OF fr] Cons.prems(3) by simp
  have "sendCalls n (fst (dispatchAll evs ?s1)) = concat (map (payloadOf entry) evs)"
    using Cons.IH [of ?s1] Cons.prems(1,2) d a by simp
  then show ?case
    using dispatchToDestinations_sendCalls [OF Cons.prems(1,2), of ev] Cons.prems(3)
    by (simp add: Let_def)
qed

lemma consent_returns:
  assumes "onConsentReturns update s"
  shows "consent update s
         = (Emit Consent (PConsent (spread (state (consent_mgr s)) update))
              # fst (notifyDestinations (destinations s) (spread (state (consent_mgr s)) update))
              @ fst (dispatchAll (map (refreshed s) (queue (consent_mgr s))) (replayState update s))
              @ [Emit QueueFlush (PQueueFlush (length (queue (consent_mgr s))))],
            snd (dispatchAll (map (refreshed s) (queue (consent_mgr s))) (replayState update s)))"
proof -
  have r: "(\<lambda>q. (event q)\<lparr> user := current_user s \<rparr>) = refreshed s"
    by (simp add: fun_eq_iff refreshed_def)
  show ?thesis
    using assms
    by (simp add: consent_def setState_def changeHandler_def drain_def redispatch_def
          onConsentReturns_def replayState_def Let_def r)
qed

lemma consent_throws:
  assumes "snd (notifyDestinations (destinations s) (spread (state (consent_mgr s)) update)) = Some e"
  shows "consent update s
         = (Emit Consent (PConsent (spread (state (consent_mgr s)) update))
              # fst (notifyDestinations (destinations s) (spread (state (consent_mgr s)) update))
              @ [ConsoleError e],
            s\<lparr> consent_mgr := (consent_mgr s)\<lparr> state := spread (state (consent_mgr s)) update \<rparr> \<rparr>)"
  using assms
  by (simp add: consent_def setState_def changeHandler_def Let_def)

lemma granted_allowed:
  assumes "map_of update c = Some True" and "requiredConsent entry = [c]"
  shows "isAllowed (consent_mgr (replayState update s)) (requiredConsent entry)"
  using assms by (simp add: isAllowed_def replayState_def map_of_spread)

lemma consent_replay_calls:
  assumes grant: "map_of update c = Some True"
      and reg: "(n, entry) \<in> set (destinations s)"
      and dist: "distinct (map fst (destinations s))"
      and only: "requiredConsent entry = [c]"
      and quiet: "onConsentReturns update s"
  shows "transformCalls n (fst (consent update s)) = map (refreshed s) (queue (consent_mgr s))"
    and "sendCalls n (fst (consent update s))
         = concat (map (\<lambda>q. payloadOf entry (refreshed s q)) (queue (consent_mgr s)))"
    and "dispatched (fst (consent update s)) = map (refreshed s) (queue (consent_mgr s))"
proof -
  let ?r = "replayState update s"
  have reg': "(n, entry) \<in> set (destinations ?r)" using reg by (simp add: replayState_def)
  have dist': "distinct (map fst (destinations ?r))" using dist by (simp add: replayState_def)
  have ok: "isAllowed (consent_mgr ?r) (requiredConsent entry)"
    by (rule granted_allowed [OF grant only])
  show "transformCalls n (fst (consent update s)) = map (refreshed s) (queue (consent_mgr s))"
    by (simp add: consent_returns [OF quiet] dispatchAll_transformCalls [OF reg' dist' ok])
  show "sendCalls n (fst (consent update s))
         = concat (map (\<lambda>q. payloadOf entry (refreshed s q)) (queue (consent_mgr s)))"
    by (simp add: consent_returns [OF quiet] dispatchAll_sendCalls [OF reg' dist' ok] comp_def)
  show "dispatched (fst (consent update s)) = map (refreshed s) (queue (consent_mgr s))"
    by (simp add: consent_returns [OF quiet])
qed

text \<open>
  C3, as the code has it: a call \<open>consent(update)\<close> that grants a category, with every
  \<open>onConsent\<close> callback returning, replays each entry of the consent queue once. A
  destination that requires only that category gets exactly one \<open>transform\<close> call per
  drained entry, in queue order, and a \<open>send\<close> call for exactly those whose \<open>transform\<close>
  returns a payload. The event it is handed is the queued event with its \<open>user\<close> field
  replaced by the identity at the time of the consent change.
\<close>

theorem queue_replay:
  assumes grant: "map_of update c = Some True"
      and reg: "(n, entry) \<in> set (destinations s)"
      and dist: "distinct (map fst (destinations s))"
      and only: "requiredConsent entry = [c]"
      and quiet: "onConsentReturns update s"
  shows "transformCalls n (fst (consent update s))
           = map (\<lambda>q. (event q)\<lparr> user := current_user s \<rparr>) (queue (consent_mgr s))
       \<and> sendCalls n (fst (consent update s))
           = concat (map (\<lambda>q. case transform (destination entry)
                                       ((event q)\<lparr> user := current_user s \<rparr>) of
                                  Returns (Some p) \<Rightarrow> [p] | _ \<Rightarrow> [])
                         (queue (consent_mgr s)))
       \<and> length (transformCalls n (fst (consent update s))) = queueSize (consent_mgr s)"
proof -
  have r: "refreshed s = (\<lambda>q. (event q)\<lparr> user := current_user s \<rparr>)"
    by (simp add: fun_eq_iff refreshed_def)
  have t: "transformCalls n (fst (consent update s))
           = map (\<lambda>q. (event q)\<lparr> user := current_user s \<rparr>) (queue (consent_mgr s))"
    using consent_replay_calls(1) [OF grant reg dist only quiet] by (simp add: r)
  have p: "sendCalls n (fst (consent update s))
           = concat (map (\<lambda>q. case transform (destination entry)
                                       ((event q)\<lparr> user := current_user s \<rparr>) of
                                  Returns (Some p) \<Rightarrow> [p] | _ \<Rightarrow> [])
                         (queue (consent_mgr s)))"
    using consent_replay_calls(2) [OF grant reg dist only quiet]
    by (simp add: r payloadOf_def)
  from t have "length (transformCalls n (fst (consent update s))) = queueSize (consent_mgr s)"
    by (simp add: queueSize_def)
  with t p show ?thesis by blast
qed

theorem queue_replay_witness:
  "transformCalls ''test-destination''
     (fst (consent [(''analytics'', True)]
        (snd (identify ''e2'' ''user-42'' None (queuedState onePending)))))
   = [(pageViewed ''e1'')\<lparr> user := \<lparr> anonymousId = ''anon'', userId = Some ''user-42'',
                                      traits = Some [] \<rparr> \<rparr>]
   \<and> sendCalls ''test-destination''
     (fst (consent [(''analytics'', True)]
        (snd (identify ''e2'' ''user-42'' None (queuedState onePending)))))
   = [ [(''transformed'', JBool True), (''event'', JStr ''e1'')] ]"
proof -
  let ?entry = "mockEntry (mockDestination ''test-destination'' [''analytics''])"
  let ?init = "pendingCollector 30000 onePending"
  let ?calls = "[Track ''e1'' ''page'' ''viewed'' None, AdvanceTo 3000, Identify ''e2'' ''user-42'' None]"
  let ?s = "snd (identify ''e2'' ''user-42'' None (queuedState onePending))"
  let ?upd = "[(''analytics'', True)]"
  have s_run: "?s = snd (run ?calls ?init)"
    by (simp add: queuedState_def Let_def)
  have d0: "destinations ?init = [(''test-destination'', ?entry)]"
    by (simp add: pendingCollector_def onePending_def testCollector_def createCollector_def
          makeOptions_def registerDestinations_def mockEntry_def mockDestination_def)
  have "destinations (snd (run ?calls ?init)) = [(''test-destination'', ?entry)]"
    by (simp only: staticD(2) [OF run_static] d0)
  then have d: "destinations ?s = [(''test-destination'', ?entry)]"
    by (simp only: s_run)
  have grant: "map_of ?upd ''analytics'' = Some True" by simp
  have reg: "(''test-destination'', ?entry) \<in> set (destinations ?s)" using d by simp
  have dist: "distinct (map fst (destinations ?s))" using d by simp
  have only: "requiredConsent ?entry = [''analytics'']"
    by (simp add: requiredConsent_def mockEntry_def mockDestination_def)
  have quiet: "onConsentReturns ?upd ?s"
    by (simp add: onConsentReturns_def d mockEntry_def mockDestination_def)
  have q: "queue (consent_mgr ?s) = [\<lparr> event = pageViewed ''e1'', queuedAt = 2000 \<rparr>]"
    by code_simp
  have u: "current_user ?s = \<lparr> anonymousId = ''anon'', userId = Some ''user-42'', traits = Some [] \<rparr>"
    by code_simp
  have tr: "transform (destination ?entry) ev
            = Returns (Some [(''transformed'', JBool True), (''event'', JStr (event_id ev))])" for ev
    by (simp add: mockEntry_def mockDestination_def)
  from queue_replay [OF grant reg dist only quiet]
  show ?thesis
    by (simp add: q u tr pageViewed_def)
qed

text \<open>
  C3 as stated fails with two destinations \<open>a\<close> and \<open>b\<close> that both require only
  \<open>analytics\<close>, \<open>b\<close> with a \<open>transform\<close> that returns \<open>null\<close>: the one tracked event is
  queued twice, the grant replays both entries, so \<open>a\<close> gets two \<open>transform\<close> and two
  \<open>send\<close> calls, and \<open>b\<close> gets two \<open>transform\<close> calls and no \<open>send\<close> call.
\<close>

theorem queue_replay_counterexample:
  "map event_id (map event (queue (consent_mgr (queuedState twoPending)))) = [''e1'', ''e1'']
   \<and> map event_id (transformCalls ''a''
        (fst (consent [(''analytics'', True)] (queuedState twoPending)))) = [''e1'', ''e1'']
   \<and> length (sendCalls ''a''
        (fst (consent [(''analytics'', True)] (queuedState twoPending)))) = 2
   \<and> map event_id (transformCalls ''b''
        (fst (consent [(''analytics'', True)] (queuedState twoPending)))) = [''e1'', ''e1'']
   \<and> length (sendCalls ''b''
        (fst (consent [(''analytics'', True)] (queuedState twoPending)))) = 0"
  by code_simp




lemma notifyDestinations_no_calls [simp]:
  "destinationCalls (fst (notifyDestinations ds st)) = []"
  by (induction ds) (simp_all add: Let_def split: option.split outcome.split)

lemma notifyDestinations_onConsentCalls:
  "snd (notifyDestinations ds st) = None
   \<Longrightarrow> onConsentCalls (fst (notifyDestinations ds st))
       = map fst (filter (\<lambda>ne. onConsent (destination (snd ne)) \<noteq> None) ds)"
  by (induction ds) (auto simp: Let_def split: option.splits outcome.splits)

lemma dispatchEntry_onConsentCalls [simp]: "onConsentCalls (fst (dispatchEntry ev ne s)) = []"
  by (simp add: dispatchEntry_def Let_def
           split: outcome.split option.split send_outcome.split)

lemma dispatchLoop_onConsentCalls [simp]: "onConsentCalls (fst (dispatchLoop ev ds s)) = []"
  unfolding dispatchLoop_effects by (induction ds) simp_all

lemma dispatchToDestinations_onConsentCalls [simp]:
  "onConsentCalls (fst (dispatchToDestinations ev s)) = []"
  by (simp add: dispatchToDestinations_def Let_def)

lemma dispatchAll_onConsentCalls [simp]: "onConsentCalls (fst (dispatchAll evs s)) = []"
  by (induction evs arbitrary: s) (simp_all add: Let_def)

text \<open>
  C4, as the code has it: \<open>consent\<close> runs the change handler to its end before it
  returns. When no \<open>onConsent\<close> callback throws, the call \<open>consent(update)\<close> emits
  \<open>consent\<close> with the merged state, then calls the \<open>onConsent\<close> of every registered
  destination that has one, in registration order, then dispatches every drained queue
  entry, in queue order and with the identity of the moment, then emits \<open>queue:flush\<close>
  with the number of drained entries: the callbacks come strictly before the replay, and
  all of it lies within the call. A destination that requires only a category the
  update grants gets one \<open>transform\<close> call per drained entry within the call. When the
  call has returned the merged state is stored, and the promise reactions that run next
  call no destination and dispatch nothing.
\<close>

theorem consent_replay_within_the_call:
  assumes quiet: "onConsentReturns update s"
  shows "(\<exists>N D. fst (consent update s)
                 = Emit Consent (PConsent (spread (state (consent_mgr s)) update)) # N @ D
                   @ [Emit QueueFlush (PQueueFlush (queueSize (consent_mgr s)))]
               \<and> destinationCalls N = [] \<and> dispatched N = []
               \<and> onConsentCalls N
                   = map fst (filter (\<lambda>ne. onConsent (destination (snd ne)) \<noteq> None)
                                (destinations s))
               \<and> onConsentCalls D = []
               \<and> dispatched D
                   = map (\<lambda>q. (event q)\<lparr> user := current_user s \<rparr>) (queue (consent_mgr s)))
       \<and> ((n, entry) \<in> set (destinations s) \<and> distinct (map fst (destinations s))
            \<and> requiredConsent entry = [c] \<and> map_of update c = Some True
          \<longrightarrow> transformCalls n (fst (consent update s))
                = map (\<lambda>q. (event q)\<lparr> user := current_user s \<rparr>) (queue (consent_mgr s)))
       \<and> state (consent_mgr (snd (consent update s))) = spread (state (consent_mgr s)) update
       \<and> destinationCalls (fst (runMicrotasks (snd (consent update s)))) = []
       \<and> dispatched (fst (runMicrotasks (snd (consent update s)))) = []"
proof -
  let ?st = "spread (state (consent_mgr s)) update"
  let ?N = "fst (notifyDestinations (destinations s) ?st)"
  let ?r = "dispatchAll (map (refreshed s) (queue (consent_mgr s))) (replayState update s)"
  let ?D = "fst ?r"
  have r: "refreshed s = (\<lambda>q. (event q)\<lparr> user := current_user s \<rparr>)"
    by (simp add: fun_eq_iff refreshed_def)
  have eff: "fst (consent update s)
             = Emit Consent (PConsent ?st) # ?N @ ?D
               @ [Emit QueueFlush (PQueueFlush (queueSize (consent_mgr s)))]"
    and after: "snd (consent update s) = snd ?r"
    by (simp_all add: consent_returns [OF quiet] queueSize_def)
  have n1: "destinationCalls ?N = []" and n2: "dispatched ?N = []" by simp_all
  have n3: "onConsentCalls ?N
            = map fst (filter (\<lambda>ne. onConsent (destination (snd ne)) \<noteq> None) (destinations s))"
    using quiet by (simp add: onConsentReturns_def notifyDestinations_onConsentCalls)
  have d1: "onConsentCalls ?D = []" by simp
  have d2: "dispatched ?D
            = map (\<lambda>q. (event q)\<lparr> user := current_user s \<rparr>) (queue (consent_mgr s))"
    by (simp add: r)
  from eff n1 n2 n3 d1 d2 have first: "\<exists>N D. fst (consent update s)
                 = Emit Consent (PConsent ?st) # N @ D
                   @ [Emit QueueFlush (PQueueFlush (queueSize (consent_mgr s)))]
               \<and> destinationCalls N = [] \<and> dispatched N = []
               \<and> onConsentCalls N
                   = map fst (filter (\<lambda>ne. onConsent (destination (snd ne)) \<noteq> None)
                                (destinations s))
               \<and> onConsentCalls D = []
               \<and> dispatched D
                   = map (\<lambda>q. (event q)\<lparr> user := current_user s \<rparr>) (queue (consent_mgr s))"
    by blast
  have second: "transformCalls n (fst (consent update s))
                = map (\<lambda>q. (event q)\<lparr> user := current_user s \<rparr>) (queue (consent_mgr s))"
    if "(n, entry) \<in> set (destinations s) \<and> distinct (map fst (destinations s))
            \<and> requiredConsent entry = [c] \<and> map_of update c = Some True"
  proof -
    from that have reg: "(n, entry) \<in> set (destinations s)"
      and dist: "distinct (map fst (destinations s))"
      and only: "requiredConsent entry = [c]" and grant: "map_of update c = Some True"
      by simp_all
    show ?thesis
      using consent_replay_calls(1) [OF grant reg dist only quiet] by (simp add: r)
  qed
  have "state (consent_mgr (snd ?r)) = state (consent_mgr (replayState update s))"
    by (rule frameD(2) [OF dispatchAll_frame])
  then have third: "state (consent_mgr (snd (consent update s))) = ?st"
    by (simp add: after replayState_def)
  have fourth: "destinationCalls (fst (runMicrotasks (snd (consent update s)))) = []"
    and fifth: "dispatched (fst (runMicrotasks (snd (consent update s)))) = []"
    by simp_all
  from first second third fourth fifth show ?thesis by blast
qed

theorem consent_replay_within_the_call_witness:
  "(\<exists>N D. fst (consent [(''analytics'', True)] (queuedState onePending))
             = Emit Consent (PConsent [(''analytics'', True)]) # N @ D
               @ [Emit QueueFlush (PQueueFlush 1)]
           \<and> onConsentCalls N = [''test-destination'']
           \<and> dispatched D = [pageViewed ''e1''])
   \<and> transformCalls ''test-destination''
        (fst (consent [(''analytics'', True)] (queuedState onePending))) = [pageViewed ''e1'']
   \<and> state (consent_mgr (snd (consent [(''analytics'', True)] (queuedState onePending))))
       = [(''analytics'', True)]"
proof -
  let ?entry = "mockEntry (mockDestination ''test-destination'' [''analytics''])"
  let ?init = "pendingCollector 30000 onePending"
  let ?calls = "[Track ''e1'' ''page'' ''viewed'' None, AdvanceTo 3000]"
  let ?s = "queuedState onePending"
  let ?upd = "[(''analytics'', True)]"
  have s_run: "?s = snd (run ?calls ?init)"
    by (simp add: queuedState_def)
  have d0: "destinations ?init = [(''test-destination'', ?entry)]"
    by (simp add: pendingCollector_def onePending_def testCollector_def createCollector_def
          makeOptions_def registerDestinations_def mockEntry_def mockDestination_def)
  have "destinations (snd (run ?calls ?init)) = [(''test-destination'', ?entry)]"
    by (simp only: staticD(2) [OF run_static] d0)
  then have d: "destinations ?s = [(''test-destination'', ?entry)]"
    by (simp only: s_run)
  have quiet: "onConsentReturns ?upd ?s"
    by (simp add: onConsentReturns_def d mockEntry_def mockDestination_def)
  have h: "(''test-destination'', ?entry) \<in> set (destinations ?s)
           \<and> distinct (map fst (destinations ?s))
           \<and> requiredConsent ?entry = [''analytics''] \<and> map_of ?upd ''analytics'' = Some True"
    by (simp add: d requiredConsent_def mockEntry_def mockDestination_def)
  have q: "queue (consent_mgr ?s) = [\<lparr> event = pageViewed ''e1'', queuedAt = 2000 \<rparr>]"
    by code_simp
  have u: "current_user ?s = \<lparr> anonymousId = ''anon'', userId = None, traits = None \<rparr>"
    by code_simp
  have st: "state (consent_mgr ?s) = []"
    by code_simp
  have same: "(pageViewed ''e1'')\<lparr> user := \<lparr> anonymousId = ''anon'', userId = None, traits = None \<rparr> \<rparr>
              = pageViewed ''e1''"
    by (simp add: pageViewed_def)
  have names: "map fst (filter (\<lambda>ne. onConsent (destination (snd ne)) \<noteq> None) (destinations ?s))
               = [''test-destination'']"
    by (simp add: d mockEntry_def mockDestination_def)
  have sp: "spread (state (consent_mgr ?s)) ?upd = ?upd"
    by (simp add: st spread_def)
  note t = consent_replay_within_the_call [OF quiet, where n = "''test-destination''"
              and entry = ?entry and c = "''analytics''"]
  from t obtain N D where
    e: "fst (consent ?upd ?s)
          = Emit Consent (PConsent (spread (state (consent_mgr ?s)) ?upd)) # N @ D
            @ [Emit QueueFlush (PQueueFlush (queueSize (consent_mgr ?s)))]"
    and nn: "onConsentCalls N
          = map fst (filter (\<lambda>ne. onConsent (destination (snd ne)) \<noteq> None) (destinations ?s))"
    and dd: "dispatched D
          = map (\<lambda>q. (event q)\<lparr> user := current_user ?s \<rparr>) (queue (consent_mgr ?s))"
    by blast
  have e': "fst (consent ?upd ?s)
          = Emit Consent (PConsent ?upd) # N @ D @ [Emit QueueFlush (PQueueFlush 1)]"
    using e by (simp add: sp q queueSize_def)
  have nn': "onConsentCalls N = [''test-destination'']"
    using nn by (simp only: names)
  have dd': "dispatched D = [pageViewed ''e1'']"
    using dd by (simp add: q u same)
  from e' nn' dd' have first: "\<exists>N D. fst (consent ?upd ?s)
             = Emit Consent (PConsent ?upd) # N @ D @ [Emit QueueFlush (PQueueFlush 1)]
           \<and> onConsentCalls N = [''test-destination'']
           \<and> dispatched D = [pageViewed ''e1'']"
    by blast
  from t h have "transformCalls ''test-destination'' (fst (consent ?upd ?s))
                = map (\<lambda>q. (event q)\<lparr> user := current_user ?s \<rparr>) (queue (consent_mgr ?s))"
    by blast
  then have second: "transformCalls ''test-destination'' (fst (consent ?upd ?s)) = [pageViewed ''e1'']"
    by (simp add: q u same)
  from t have "state (consent_mgr (snd (consent ?upd ?s))) = spread (state (consent_mgr ?s)) ?upd"
    by blast
  then have third: "state (consent_mgr (snd (consent ?upd ?s))) = ?upd"
    by (simp only: sp)
  from first second third show ?thesis by blast
qed

text \<open>
  C4 as stated fails: with one event queued for a destination that waits for
  \<open>analytics\<close>, the destination has not been called before the grant; the call
  \<open>consent({analytics: true})\<close> itself hands it the event, sends the payload and emits
  \<open>queue:flush\<close> with count 1, and leaves the queue empty and no reaction pending for
  a later microtask.
\<close>

theorem consent_replay_not_deferred_counterexample:
  "transformCalls ''test-destination''
       (fst (run [Track ''e1'' ''page'' ''viewed'' None, AdvanceTo 3000]
               (pendingCollector 30000 onePending))) = []
   \<and> fst (consent [(''analytics'', True)] (queuedState onePending))
       = [Emit Consent (PConsent [(''analytics'', True)]),
          OnConsentCall ''test-destination'' [(''analytics'', True)],
          Dispatch (pageViewed ''e1''),
          TransformCall ''test-destination'' (pageViewed ''e1''),
          SendCall ''test-destination'' [(''transformed'', JBool True), (''event'', JStr ''e1'')] [],
          Emit DestinationSend (PDestinationSend ''test-destination'' (pageViewed ''e1'')),
          Emit QueueFlush (PQueueFlush 1)]
   \<and> queue (consent_mgr (snd (consent [(''analytics'', True)] (queuedState onePending)))) = []
   \<and> microtasks (snd (consent [(''analytics'', True)] (queuedState onePending))) = []"
  by code_simp

text \<open>
  C8: the loop over the destinations' \<open>onConsent\<close> is not guarded. With destination \<open>a\<close>
  whose \<open>onConsent\<close> throws registered before destination \<open>b\<close>, and one event queued for
  each, a consent change emits \<open>consent\<close>, calls \<open>a\<close> and ends there: the exception is
  caught and logged by the consent manager, \<open>b\<close> is not told, the two queue entries stay
  where they are, nothing is dispatched and \<open>queue:flush\<close> is not emitted.
\<close>

theorem onConsent_exception_ends_the_handler:
  "fst (consent [(''analytics'', True)] (queuedState brokenThenGood))
     = [Emit Consent (PConsent [(''analytics'', True)]),
        OnConsentCall ''a'' [(''analytics'', True)],
        ConsoleError ''boom'']
   \<and> queueSize (consent_mgr (snd (consent [(''analytics'', True)] (queuedState brokenThenGood)))) = 2
   \<and> state (consent_mgr (snd (consent [(''analytics'', True)] (queuedState brokenThenGood))))
       = [(''analytics'', True)]"
  by code_simp

section \<open>Buffering\<close>

lemma valid_iff_accepted:
  "valid (snd (validate cs (buildEvent uid e a ps s))) = accepted cs e a ps"
  by (simp add: validate_def accepted_def buildEvent_def
           split: option.split parse_result.split)

lemma validate_event_id [simp]: "event_id (result_event (snd (validate cs ev))) = event_id ev"
  by (simp add: validate_def split: option.split parse_result.split)

lemma validate_dispatched [simp]: "dispatched (fst (validate cs ev)) = []"
  by (simp add: validate_def split: option.split parse_result.split)

text \<open>Only \<open>consent\<close> changes the stored consent state.\<close>

lemma flushBuffer_state [simp]: "state (consent_mgr (snd (flushBuffer s))) = state (consent_mgr s)"
proof -
  have "state (consent_mgr (snd (dispatchAll evs x))) = state (consent_mgr x)" for evs x
    by (rule frameD(2) [OF dispatchAll_frame])
  then show ?thesis by (simp add: flushBuffer_def Let_def)
qed

lemma track_state [simp]: "state (consent_mgr (snd (track uid e a ps s))) = state (consent_mgr s)"
  by (simp add: track_def Let_def scheduleFlush_def split: option.split)

lemma fireSweep_state [simp]: "state (consent_mgr (fireSweep s)) = state (consent_mgr s)"
  by (simp add: fireSweep_def Let_def sweep_def)

lemma runSweeps_state [simp]: "state (consent_mgr (runSweeps t s)) = state (consent_mgr s)"
proof (induction t s rule: runSweeps.induct)
  case (1 t s)
  show ?case
  proof (cases "sweepDue t s")
    case True
    then have "runSweeps t s = runSweeps t (fireSweep s)" by (subst runSweeps.simps) simp
    with True "1.IH" show ?thesis by simp
  next
    case False
    then have "runSweeps t s = s" by (subst runSweeps.simps) simp
    then show ?thesis by simp
  qed
qed

lemma settle_state [simp]: "state (consent_mgr (settle t s)) = state (consent_mgr s)"
  by (simp add: settle_def Let_def)

lemma advanceTo_state [simp]: "state (consent_mgr (snd (advanceTo t s))) = state (consent_mgr s)"
  by (simp add: advanceTo_def fireFlushTimer_def Let_def runMicrotasks_def split: option.split)

lemma flushBuffer_result:
  "dispatched (fst (flushBuffer s)) = buffer s"
  "buffer (snd (flushBuffer s)) = []"
  "flushTimer (snd (flushBuffer s)) = None"
  "current_user (snd (flushBuffer s)) = current_user s"
proof -
  let ?s1 = "s\<lparr>flushTimer := None, buffer := []\<rparr>"
  have fr: "frameOf (snd (dispatchAll (buffer s) ?s1)) = frameOf ?s1" by simp
  show "dispatched (fst (flushBuffer s)) = buffer s"
    by (simp add: flushBuffer_def Let_def)
  show "buffer (snd (flushBuffer s)) = []"
    using frameD(5) [OF fr] by (simp add: flushBuffer_def Let_def)
  show "flushTimer (snd (flushBuffer s)) = None"
    using frameD(6) [OF fr] by (simp add: flushBuffer_def Let_def)
  show "current_user (snd (flushBuffer s)) = current_user s"
    using frameD(9) [OF fr] by (simp add: flushBuffer_def Let_def)
qed

lemma track_rejected:
  assumes "\<not> accepted (contracts s) e a ps"
  shows "snd (track uid e a ps s) = s" and "dispatched (fst (track uid e a ps s)) = []"
    and "destinationCalls (fst (track uid e a ps s)) = []"
  using assms valid_iff_accepted [of "contracts s" uid e a ps s]
  by (simp_all add: track_def Let_def)

lemma track_buffered:
  assumes "accepted (contracts s) e a ps"
      and "int (length (buffer s)) + 1 < maxSize (bufferConfig s)"
  shows "dispatched (fst (track uid e a ps s)) = []"
    and "snd (track uid e a ps s)
         = scheduleFlush (s\<lparr> buffer := buffer s
              @ [result_event (snd (validate (contracts s) (buildEvent uid e a ps s)))] \<rparr>)"
    and "destinationCalls (fst (track uid e a ps s)) = []"
  using assms valid_iff_accepted [of "contracts s" uid e a ps s]
  by (simp_all add: track_def Let_def)

lemma track_flushes:
  assumes "accepted (contracts s) e a ps"
      and "maxSize (bufferConfig s) \<le> int (length (buffer s)) + 1"
  shows "dispatched (fst (track uid e a ps s))
         = buffer s @ [result_event (snd (validate (contracts s) (buildEvent uid e a ps s)))]"
    and "buffer (snd (track uid e a ps s)) = []"
    and "flushTimer (snd (track uid e a ps s)) = None"
  using assms valid_iff_accepted [of "contracts s" uid e a ps s]
  by (simp_all add: track_def Let_def flushBuffer_result)

lemma fireSweep_bufferOf [simp]: "bufferOf (fireSweep s) = bufferOf s"
  by (simp add: fireSweep_def Let_def bufferOf_def)

lemma runSweeps_bufferOf [simp]: "bufferOf (runSweeps t s) = bufferOf s"
proof (induction t s rule: runSweeps.induct)
  case (1 t s)
  show ?case
  proof (cases "sweepDue t s")
    case True
    then have "runSweeps t s = runSweeps t (fireSweep s)" by (subst runSweeps.simps) simp
    with True "1.IH" show ?thesis by simp
  next
    case False
    then have "runSweeps t s = s" by (subst runSweeps.simps) simp
    then show ?thesis by simp
  qed
qed

lemma settle_bufferOf [simp]: "bufferOf (settle t s) = bufferOf s"
proof -
  have "bufferOf (runSweeps t s) = bufferOf s" by simp
  then show ?thesis by (simp add: settle_def Let_def bufferOf_def)
qed

lemma bufferD:
  assumes "bufferOf s' = bufferOf s"
  shows "buffer s' = buffer s" and "flushTimer s' = flushTimer s"
    and "current_user s' = current_user s"
  using assms by (simp_all add: bufferOf_def)

lemma advanceTo_before:
  assumes "flushTimer s = None \<or> (\<exists>d. flushTimer s = Some d \<and> t < d)"
  shows "dispatched (fst (advanceTo t s)) = []" and "bufferOf (snd (advanceTo t s)) = bufferOf s"
    and "destinationCalls (fst (advanceTo t s)) = []"
proof -
  let ?m = "snd (runMicrotasks s)"
  have b: "bufferOf (settle t ?m) = bufferOf s"
    by (simp add: runMicrotasks_def) (simp add: bufferOf_def)
  have r: "snd (advanceTo t s) = settle t ?m \<and> fst (advanceTo t s) = fst (runMicrotasks s)"
    using assms by (auto simp: advanceTo_def Let_def runMicrotasks_def split: option.split)
  from r show "dispatched (fst (advanceTo t s)) = []" by simp
  from r b show "bufferOf (snd (advanceTo t s)) = bufferOf s" by simp
  from r show "destinationCalls (fst (advanceTo t s)) = []" by simp
qed

lemma advanceTo_due:
  assumes "flushTimer s = Some d" and "d \<le> t"
  shows "dispatched (fst (advanceTo t s)) = buffer s"
    and "buffer (snd (advanceTo t s)) = []"
    and "flushTimer (snd (advanceTo t s)) = None"
proof -
  let ?m = "snd (runMicrotasks s)"
  let ?w = "runSweeps d ?m"
  let ?c = "?w\<lparr> clock := max (clock ?w) d \<rparr>"
  let ?f = "snd (flushBuffer ?c)"
  let ?g = "snd (runMicrotasks ?f)"
  have bm: "bufferOf ?m = bufferOf s" by (simp add: runMicrotasks_def bufferOf_def)
  have bw: "bufferOf ?w = bufferOf s" using bm by simp
  have bc: "buffer ?c = buffer s" using bufferD(1) [OF bw] by simp
  have ft: "flushTimer ?m = Some d" using bufferD(2) [OF bm] assms(1) by simp
  have eff: "fst (advanceTo t s) = fst (runMicrotasks s) @ fst (flushBuffer ?c) @ fst (runMicrotasks ?f)"
    and st: "snd (advanceTo t s) = settle t ?g"
    using ft assms(2) by (simp_all add: advanceTo_def Let_def fireFlushTimer_def)
  show "dispatched (fst (advanceTo t s)) = buffer s"
    by (simp add: eff flushBuffer_result bc)
  have "bufferOf ?g = bufferOf ?f" by (simp add: runMicrotasks_def bufferOf_def)
  then have "bufferOf (settle t ?g) = bufferOf ?f" by simp
  then show "buffer (snd (advanceTo t s)) = []" and "flushTimer (snd (advanceTo t s)) = None"
    using bufferD(1,2) [of "settle t ?g" ?f] by (simp_all add: st flushBuffer_result)
qed

lemma scheduleFlush_armed:
  "flushTimer s = Some d \<Longrightarrow> scheduleFlush s = s"
  by (simp add: scheduleFlush_def)

lemma buildEvent_event_id [simp]: "event_id (buildEvent uid e a ps s) = uid"
  by (simp add: buildEvent_def)

lemma burst_invariant:
  assumes "flushTimer s = Some d"
      and "burstBefore d cs"
      and "int (length (buffer s)) + int (length (acceptedIds (contracts s) cs))
           < maxSize (bufferConfig s)"
  shows "dispatched (fst (run cs s)) = []
       \<and> flushTimer (snd (run cs s)) = Some d
       \<and> map event_id (buffer (snd (run cs s)))
           = map event_id (buffer s) @ acceptedIds (contracts s) cs
       \<and> staticOf (snd (run cs s)) = staticOf s
       \<and> destinationCalls (fst (run cs s)) = []
       \<and> state (consent_mgr (snd (run cs s))) = state (consent_mgr s)"
  using assms
proof (induction cs arbitrary: s)
  case Nil
  then show ?case by simp
next
  case (Cons c cs)
  show ?case
  proof (cases c)
    case (Track uid e a ps)
    show ?thesis
    proof (cases "accepted (contracts s) e a ps")
      case True
      let ?ev = "result_event (snd (validate (contracts s) (buildEvent uid e a ps s)))"
      let ?s1 = "s\<lparr> buffer := buffer s @ [?ev] \<rparr>"
      have room: "int (length (buffer s)) + 1 < maxSize (bufferConfig s)"
        using Cons.prems(3) Track True by simp
      have s1: "snd (track uid e a ps s) = ?s1"
        using track_buffered(2) [OF True room, of uid] scheduleFlush_armed [of ?s1 d] Cons.prems(1)
        by simp
      have quiet: "dispatched (fst (track uid e a ps s)) = []"
          "destinationCalls (fst (track uid e a ps s)) = []"
        by (rule track_buffered(1) [OF True room], rule track_buffered(3) [OF True room])
      have p1: "flushTimer ?s1 = Some d" using Cons.prems(1) by simp
      have p2: "burstBefore d cs" using Cons.prems(2) Track by simp
      have p3: "int (length (buffer ?s1)) + int (length (acceptedIds (contracts ?s1) cs))
                < maxSize (bufferConfig ?s1)"
        using Cons.prems(3) Track True by simp
      have st: "staticOf ?s1 = staticOf s" by (simp add: staticOf_def)
      have cs1: "state (consent_mgr ?s1) = state (consent_mgr s)" by simp
      from Cons.IH [OF p1 p2 p3] show ?thesis
        using Track True s1 quiet st cs1 by (simp add: Let_def)
    next
      case False
      have s1: "snd (track uid e a ps s) = s" and quiet: "dispatched (fst (track uid e a ps s)) = []"
          "destinationCalls (fst (track uid e a ps s)) = []"
        using track_rejected [OF False] by simp_all
      have p2: "burstBefore d cs" using Cons.prems(2) Track by simp
      have p3: "int (length (buffer s)) + int (length (acceptedIds (contracts s) cs))
                < maxSize (bufferConfig s)"
        using Cons.prems(3) Track False by simp
      from Cons.IH [OF Cons.prems(1) p2 p3] show ?thesis
        using Track False s1 quiet by (simp add: Let_def)
    qed
  next
    case (AdvanceTo t)
    let ?s1 = "snd (advanceTo t s)"
    have before: "flushTimer s = None \<or> (\<exists>d. flushTimer s = Some d \<and> t < d)"
      using Cons.prems(1,2) AdvanceTo by simp
    have quiet: "dispatched (fst (advanceTo t s)) = []"
        "destinationCalls (fst (advanceTo t s)) = []"
      by (rule advanceTo_before(1) [OF before], rule advanceTo_before(3) [OF before])
    have b: "bufferOf ?s1 = bufferOf s" by (rule advanceTo_before(2) [OF before])
    have st: "staticOf ?s1 = staticOf s" by simp
    have p1: "flushTimer ?s1 = Some d" using bufferD(2) [OF b] Cons.prems(1) by simp
    have p2: "burstBefore d cs" using Cons.prems(2) AdvanceTo by simp
    have p3: "int (length (buffer ?s1)) + int (length (acceptedIds (contracts ?s1) cs))
              < maxSize (bufferConfig ?s1)"
      using Cons.prems(3) AdvanceTo bufferD(1) [OF b] staticD(3,4) [OF st] by simp
    from Cons.IH [OF p1 p2 p3] show ?thesis
      using AdvanceTo quiet bufferD(1) [OF b] staticD(3) [OF st] st by (simp add: Let_def)
  next
    case (Identify uid u ts)
    with Cons.prems(2) show ?thesis by simp
  next
    case (ConsentCall st)
    with Cons.prems(2) show ?thesis by simp
  next
    case Flush
    with Cons.prems(2) show ?thesis by simp
  next
    case Microtasks
    with Cons.prems(2) show ?thesis by simp
  qed
qed

subsection \<open>Collectors as they are built\<close>

text \<open>The destinations of a collector are a JavaScript \<open>Map\<close>: no name occurs twice, at
  construction and ever after.\<close>

lemma map_set_names: "fst ` set (map_set k v m) = insert k (fst ` set m)"
proof (induction m)
  case Nil
  show ?case by simp
next
  case (Cons x m)
  obtain k' v' where x: "x = (k', v')" by (cases x)
  show ?case
  proof (cases "k' = k")
    case True
    with x show ?thesis by auto
  next
    case False
    with x Cons.IH show ?thesis by auto
  qed
qed

lemma map_set_distinct: "distinct (map fst m) \<Longrightarrow> distinct (map fst (map_set k v m))"
  by (induction m) (auto simp: map_set_names)

lemma registerDestinations_distinct: "distinct (map fst (registerDestinations entries))"
proof -
  have "distinct (map fst m) \<Longrightarrow>
        distinct (map fst (foldl (\<lambda>m entry. if enabled entry = Some False then m
                       else map_set (name (destination entry)) entry m) m entries))" for m
    by (induction entries arbitrary: m) (simp_all add: map_set_distinct)
  from this [of "[]"] show ?thesis by (simp add: registerDestinations_def)
qed

lemma reachable_names_distinct:
  "distinct (map fst (destinations (snd (run cs (createCollector opts anon nav now)))))"
proof -
  have "destinations (snd (run cs (createCollector opts anon nav now)))
        = destinations (createCollector opts anon nav now)"
    by (rule staticD(2) [OF run_static])
  then show ?thesis by (simp add: createCollector_def Let_def registerDestinations_distinct)
qed

text \<open>The flush timer is armed exactly while the buffer holds events.\<close>

lemma track_timer_iff_buffer:
  assumes "(flushTimer s = None) = (buffer s = [])"
  shows "(flushTimer (snd (track uid e a ps s)) = None) = (buffer (snd (track uid e a ps s)) = [])"
proof (cases "accepted (contracts s) e a ps")
  case False
  with assms show ?thesis by (simp add: track_rejected)
next
  case True
  show ?thesis
  proof (cases "maxSize (bufferConfig s) \<le> int (length (buffer s)) + 1")
    case True
    with \<open>accepted (contracts s) e a ps\<close> show ?thesis by (simp add: track_flushes)
  next
    case False
    then have "int (length (buffer s)) + 1 < maxSize (bufferConfig s)" by simp
    from track_buffered(2) [OF \<open>accepted (contracts s) e a ps\<close> this, of uid]
    show ?thesis by (simp add: scheduleFlush_def split: option.split)
  qed
qed

lemma consent_bufferOf [simp]: "bufferOf (snd (consent update s)) = bufferOf s"
proof -
  have "bufferOf (snd (redispatch q x)) = bufferOf x" for q x
    using frameD(5,6,9) [OF redispatch_frame, of q x] by (simp add: bufferOf_def)
  then show ?thesis
    by (simp add: consent_def setState_def changeHandler_def drain_def Let_def split: option.split)
       (simp add: bufferOf_def)
qed

lemma applyCall_timer_iff_buffer:
  assumes "(flushTimer s = None) = (buffer s = [])"
  shows "(flushTimer (snd (applyCall c s)) = None) = (buffer (snd (applyCall c s)) = [])"
proof (cases c)
  case (Track uid e a ps)
  with track_timer_iff_buffer [OF assms] show ?thesis by simp
next
  case (Identify uid u ts)
  have "(flushTimer x = None) = (buffer x = [])"
    if "x = s\<lparr> current_user := w \<rparr>" for x w
    using assms that by simp
  from track_timer_iff_buffer [OF this] Identify show ?thesis
    by (simp add: identify_def Let_def)
next
  case (ConsentCall st)
  with assms bufferD(1,2) [OF consent_bufferOf, of st s] show ?thesis by simp
next
  case Flush
  then show ?thesis by (simp add: flush_def flushBuffer_result)
next
  case (AdvanceTo t)
  show ?thesis
  proof (cases "flushTimer s = None \<or> (\<exists>d. flushTimer s = Some d \<and> t < d)")
    case True
    from bufferD(1,2) [OF advanceTo_before(2) [OF True]] assms AdvanceTo show ?thesis by simp
  next
    case False
    then obtain d where "flushTimer s = Some d" and "d \<le> t"
      by (cases "flushTimer s") auto
    from advanceTo_due(2,3) [OF this] AdvanceTo show ?thesis by simp
  qed
next
  case Microtasks
  with assms show ?thesis by (simp add: runMicrotasks_def)
qed

lemma reachable_timer_iff_buffer:
  "(flushTimer (snd (run cs (createCollector opts anon nav now))) = None)
   = (buffer (snd (run cs (createCollector opts anon nav now))) = [])"
proof -
  have "(flushTimer s = None) = (buffer s = [])
        \<Longrightarrow> (flushTimer (snd (run cs s)) = None) = (buffer (snd (run cs s)) = [])" for s
  proof (induction cs arbitrary: s)
    case Nil
    then show ?case by simp
  next
    case (Cons c cs)
    from Cons.IH [OF applyCall_timer_iff_buffer [OF Cons.prems]] show ?case
      by (simp add: Let_def)
  qed
  from this [of "createCollector opts anon nav now"] show ?thesis
    by (simp add: createCollector_def Let_def)
qed

subsection \<open>The flush law\<close>

lemma flushBuffer_calls:
  assumes "(n, entry) \<in> set (destinations s)"
      and "distinct (map fst (destinations s))"
      and "isAllowed (consent_mgr s) (requiredConsent entry)"
  shows "transformCalls n (fst (flushBuffer s)) = buffer s"
    and "sendCalls n (fst (flushBuffer s)) = concat (map (payloadOf entry) (buffer s))"
proof -
  let ?s1 = "s\<lparr>flushTimer := None, buffer := []\<rparr>"
  have a: "(n, entry) \<in> set (destinations ?s1)" "distinct (map fst (destinations ?s1))"
    "isAllowed (consent_mgr ?s1) (requiredConsent entry)"
    using assms by simp_all
  show "transformCalls n (fst (flushBuffer s)) = buffer s"
    using dispatchAll_transformCalls [OF a, of "buffer s"] by (simp add: flushBuffer_def Let_def)
  show "sendCalls n (fst (flushBuffer s)) = concat (map (payloadOf entry) (buffer s))"
    using dispatchAll_sendCalls [OF a, of "buffer s"] by (simp add: flushBuffer_def Let_def)
qed

lemma track_flushes_calls:
  assumes "accepted (contracts s) e a ps"
      and "maxSize (bufferConfig s) \<le> int (length (buffer s)) + 1"
      and "(n, entry) \<in> set (destinations s)"
      and "distinct (map fst (destinations s))"
      and "isAllowed (consent_mgr s) (requiredConsent entry)"
  shows "transformCalls n (fst (track uid e a ps s))
         = buffer s @ [result_event (snd (validate (contracts s) (buildEvent uid e a ps s)))]"
    and "sendCalls n (fst (track uid e a ps s))
         = concat (map (payloadOf entry) (transformCalls n (fst (track uid e a ps s))))"
proof -
  let ?ev = "result_event (snd (validate (contracts s) (buildEvent uid e a ps s)))"
  let ?s1 = "s\<lparr> buffer := buffer s @ [?ev] \<rparr>"
  have a: "(n, entry) \<in> set (destinations ?s1)" "distinct (map fst (destinations ?s1))"
    "isAllowed (consent_mgr ?s1) (requiredConsent entry)"
    using assms(3-5) by simp_all
  have eff: "fst (track uid e a ps s)
             = fst (validate (contracts s) (buildEvent uid e a ps s))
               @ [Emit Event (PEvent (buildEvent uid e a ps s)),
                  Emit EventValid (PEvent (buildEvent uid e a ps s))]
               @ fst (flushBuffer ?s1)"
    using assms(1,2) valid_iff_accepted [of "contracts s" uid e a ps s]
    by (simp add: track_def Let_def)
  show t: "transformCalls n (fst (track uid e a ps s)) = buffer s @ [?ev]"
    using flushBuffer_calls(1) [OF a] by (simp add: eff)
  show "sendCalls n (fst (track uid e a ps s))
         = concat (map (payloadOf entry) (transformCalls n (fst (track uid e a ps s))))"
    unfolding t using flushBuffer_calls(2) [OF a] by (simp add: eff)
qed

lemma advanceTo_due_calls:
  assumes "flushTimer s = Some d" and "d \<le> t"
      and "(n, entry) \<in> set (destinations s)"
      and "distinct (map fst (destinations s))"
      and "isAllowed (consent_mgr s) (requiredConsent entry)"
  shows "transformCalls n (fst (advanceTo t s)) = buffer s"
    and "sendCalls n (fst (advanceTo t s)) = concat (map (payloadOf entry) (buffer s))"
proof -
  let ?m = "snd (runMicrotasks s)"
  let ?w = "runSweeps d ?m"
  let ?c = "?w\<lparr> clock := max (clock ?w) d \<rparr>"
  let ?f = "snd (flushBuffer ?c)"
  have bm: "bufferOf ?m = bufferOf s" by (simp add: runMicrotasks_def bufferOf_def)
  have bw: "bufferOf ?w = bufferOf s" using bm by simp
  have bc: "buffer ?c = buffer s" using bufferD(1) [OF bw] by simp
  have ft: "flushTimer ?m = Some d" using bufferD(2) [OF bm] assms(1) by simp
  have eff: "fst (advanceTo t s) = fst (runMicrotasks s) @ fst (flushBuffer ?c) @ fst (runMicrotasks ?f)"
    using ft assms(2) by (simp add: advanceTo_def Let_def fireFlushTimer_def)
  have "staticOf ?w = staticOf ?m" by (rule runSweeps_static)
  also have "\<dots> = staticOf s" by (rule runMicrotasks_static)
  finally have dw: "destinations ?c = destinations s" using staticD(2) [of ?w s] by simp
  have "state (consent_mgr ?w) = state (consent_mgr ?m)" by (rule runSweeps_state)
  also have "\<dots> = state (consent_mgr s)" by (simp add: runMicrotasks_def)
  finally have "state (consent_mgr ?c) = state (consent_mgr s)" by simp
  from isAllowed_state [OF this] assms(5)
  have ok: "isAllowed (consent_mgr ?c) (requiredConsent entry)" by simp
  have a: "(n, entry) \<in> set (destinations ?c)" "distinct (map fst (destinations ?c))"
    using assms(3,4) dw by simp_all
  show "transformCalls n (fst (advanceTo t s)) = buffer s"
    using flushBuffer_calls(1) [OF a ok] by (simp add: eff bc)
  show "sendCalls n (fst (advanceTo t s)) = concat (map (payloadOf entry) (buffer s))"
    using flushBuffer_calls(2) [OF a ok] by (simp add: eff bc)
qed

lemma setTimeoutDelay_bounds:
  "1 \<le> setTimeoutDelay d"
  "d \<le> 2147483647 \<Longrightarrow> d \<le> setTimeoutDelay d"
  "1 \<le> d \<Longrightarrow> d \<le> 2147483647 \<Longrightarrow> setTimeoutDelay d = d"
  by (simp_all add: setTimeoutDelay_def)


text \<open>
  C7, as the code has it: with \<open>maxSize = N\<close> and \<open>maxWait = T\<close>, for a registered
  destination that consent allows. A \<open>track\<close> call whose event passes validation and
  brings the buffer to \<open>N\<close> events hands the destination's \<open>transform\<close> the whole
  buffer, that event last, before the call returns, with a \<open>send\<close> call for every
  payload \<open>transform\<close> returns, and leaves the buffer empty and no timer armed; one that
  leaves the buffer shorter calls no destination at all, arms the flush timer for the
  delay \<open>setTimeout\<close> gives \<open>T\<close> when none is armed, and leaves an armed one as it is.
  That delay is \<open>T\<close> for \<open>T\<close> from 1 to 2147483647, never shorter than \<open>T\<close> for any
  \<open>T\<close> up to 2147483647, and 1 for a larger \<open>T\<close>. In every state a collector reaches
  from its construction, the timer is armed exactly while the buffer is not empty.

  For a burst that starts on an empty buffer with no timer armed, with an accepted
  \<open>track\<close> at time \<open>clock s\<close>, and goes on with \<open>track\<close> calls and time passing short
  of the deadline \<open>clock s + setTimeoutDelay T\<close>, fewer than \<open>N\<close> events being accepted
  in all: no destination is called during the burst, the timer still stands at the
  deadline, the buffer holds the accepted events in order; letting time pass to any
  moment before the deadline calls no destination, letting it reach the deadline or
  later hands the destination exactly the buffered events, in order; and if the burst
  has accepted \<open>N - 1\<close> events, the next accepted \<open>track\<close> hands it all \<open>N\<close> within the
  call.
\<close>

theorem buffer_flush_law:
  assumes reg: "(n, entry) \<in> set (destinations s)"
      and dist: "distinct (map fst (destinations s))"
      and ok: "isAllowed (consent_mgr s) (requiredConsent entry)"
  shows
  "(accepted (contracts s) e a ps \<and> maxSize (bufferConfig s) \<le> int (length (buffer s)) + 1 \<longrightarrow>
      map event_id (transformCalls n (fst (track uid e a ps s))) = map event_id (buffer s) @ [uid]
      \<and> sendCalls n (fst (track uid e a ps s))
          = concat (map (\<lambda>ev. case transform (destination entry) ev of
                                  Returns (Some p) \<Rightarrow> [p] | _ \<Rightarrow> [])
                        (transformCalls n (fst (track uid e a ps s))))
      \<and> buffer (snd (track uid e a ps s)) = []
      \<and> flushTimer (snd (track uid e a ps s)) = None)
   \<and> (accepted (contracts s) e a ps \<and> int (length (buffer s)) + 1 < maxSize (bufferConfig s) \<longrightarrow>
      destinationCalls (fst (track uid e a ps s)) = []
      \<and> flushTimer (snd (track uid e a ps s))
          = (case flushTimer s of
               None \<Rightarrow> Some (clock s + setTimeoutDelay (maxWait (bufferConfig s)))
             | Some d \<Rightarrow> Some d))
   \<and> (buffer s = [] \<and> flushTimer s = None \<and> accepted (contracts s) e a ps
      \<and> burstBefore (clock s + setTimeoutDelay (maxWait (bufferConfig s))) rest
      \<and> int (length (acceptedIds (contracts s) (Track uid e a ps # rest))) < maxSize (bufferConfig s)
      \<longrightarrow>
      destinationCalls (fst (run (Track uid e a ps # rest) s)) = []
      \<and> flushTimer (snd (run (Track uid e a ps # rest) s))
          = Some (clock s + setTimeoutDelay (maxWait (bufferConfig s)))
      \<and> map event_id (buffer (snd (run (Track uid e a ps # rest) s)))
          = acceptedIds (contracts s) (Track uid e a ps # rest)
      \<and> (\<forall>t. t < clock s + setTimeoutDelay (maxWait (bufferConfig s)) \<longrightarrow>
            destinationCalls (fst (advanceTo t (snd (run (Track uid e a ps # rest) s)))) = [])
      \<and> (\<forall>t. clock s + setTimeoutDelay (maxWait (bufferConfig s)) \<le> t \<longrightarrow>
            transformCalls n (fst (advanceTo t (snd (run (Track uid e a ps # rest) s))))
              = buffer (snd (run (Track uid e a ps # rest) s))
            \<and> sendCalls n (fst (advanceTo t (snd (run (Track uid e a ps # rest) s))))
                = concat (map (\<lambda>ev. case transform (destination entry) ev of
                                        Returns (Some p) \<Rightarrow> [p] | _ \<Rightarrow> [])
                              (buffer (snd (run (Track uid e a ps # rest) s))))
            \<and> buffer (snd (advanceTo t (snd (run (Track uid e a ps # rest) s)))) = []
            \<and> flushTimer (snd (advanceTo t (snd (run (Track uid e a ps # rest) s)))) = None)
      \<and> (\<forall>uid' e' a' ps'.
            accepted (contracts s) e' a' ps'
            \<and> int (length (acceptedIds (contracts s) (Track uid e a ps # rest))) + 1
                = maxSize (bufferConfig s)
            \<longrightarrow> map event_id (transformCalls n (fst (track uid' e' a' ps'
                      (snd (run (Track uid e a ps # rest) s)))))
                  = acceptedIds (contracts s) (Track uid e a ps # rest) @ [uid']))
   \<and> (maxWait (bufferConfig s) \<le> 2147483647 \<longrightarrow>
        maxWait (bufferConfig s) \<le> setTimeoutDelay (maxWait (bufferConfig s)))
   \<and> (1 \<le> maxWait (bufferConfig s) \<and> maxWait (bufferConfig s) \<le> 2147483647 \<longrightarrow>
        setTimeoutDelay (maxWait (bufferConfig s)) = maxWait (bufferConfig s))
   \<and> (2147483647 < maxWait (bufferConfig s) \<longrightarrow>
        setTimeoutDelay (maxWait (bufferConfig s)) = 1)
   \<and> (flushTimer (snd (run cs (createCollector opts anon nav now))) = None)
       = (buffer (snd (run cs (createCollector opts anon nav now))) = [])"
proof (intro conjI impI)
  have po: "payloadOf entry
            = (\<lambda>ev. case transform (destination entry) ev of Returns (Some p) \<Rightarrow> [p] | _ \<Rightarrow> [])"
    by (simp add: fun_eq_iff payloadOf_def)
  {
    assume h: "accepted (contracts s) e a ps \<and> maxSize (bufferConfig s) \<le> int (length (buffer s)) + 1"
    then have acc: "accepted (contracts s) e a ps"
      and full: "maxSize (bufferConfig s) \<le> int (length (buffer s)) + 1" by simp_all
    show "map event_id (transformCalls n (fst (track uid e a ps s))) = map event_id (buffer s) @ [uid]"
      using track_flushes_calls(1) [OF acc full reg dist ok, of uid] by simp
    show "sendCalls n (fst (track uid e a ps s))
          = concat (map (\<lambda>ev. case transform (destination entry) ev of
                                  Returns (Some p) \<Rightarrow> [p] | _ \<Rightarrow> [])
                        (transformCalls n (fst (track uid e a ps s))))"
      using track_flushes_calls(2) [OF acc full reg dist ok, of uid] by (simp only: po)
    show "buffer (snd (track uid e a ps s)) = []"
      and "flushTimer (snd (track uid e a ps s)) = None"
      by (rule track_flushes(2) [OF acc full], rule track_flushes(3) [OF acc full])
  }
  {
    assume h: "accepted (contracts s) e a ps \<and> int (length (buffer s)) + 1 < maxSize (bufferConfig s)"
    then have acc: "accepted (contracts s) e a ps"
      and room: "int (length (buffer s)) + 1 < maxSize (bufferConfig s)" by simp_all
    show "destinationCalls (fst (track uid e a ps s)) = []"
      by (rule track_buffered(3) [OF acc room])
    show "flushTimer (snd (track uid e a ps s))
          = (case flushTimer s of
               None \<Rightarrow> Some (clock s + setTimeoutDelay (maxWait (bufferConfig s)))
             | Some d \<Rightarrow> Some d)"
      using track_buffered(2) [OF acc room, of uid]
      by (simp add: scheduleFlush_def split: option.split)
  }
  {
    let ?d = "clock s + setTimeoutDelay (maxWait (bufferConfig s))"
    let ?calls = "Track uid e a ps # rest"
    let ?ev = "result_event (snd (validate (contracts s) (buildEvent uid e a ps s)))"
    let ?s1 = "snd (track uid e a ps s)"
    let ?s' = "snd (run ?calls s)"
    assume h: "buffer s = [] \<and> flushTimer s = None \<and> accepted (contracts s) e a ps
        \<and> burstBefore ?d rest
        \<and> int (length (acceptedIds (contracts s) ?calls)) < maxSize (bufferConfig s)"
    then have acc: "accepted (contracts s) e a ps" and empty: "buffer s = []"
      and unarmed: "flushTimer s = None" and burst: "burstBefore ?d rest"
      by simp_all
    have fewer: "1 + int (length (acceptedIds (contracts s) rest)) < maxSize (bufferConfig s)"
      using h acc by simp
    have room: "int (length (buffer s)) + 1 < maxSize (bufferConfig s)"
      using fewer empty by simp
    have s1: "?s1 = s\<lparr> buffer := [?ev], flushTimer := Some ?d \<rparr>"
      using track_buffered(2) [OF acc room, of uid] empty unarmed
      by (simp add: scheduleFlush_def)
    have q1: "destinationCalls (fst (track uid e a ps s)) = []"
      by (rule track_buffered(3) [OF acc room])
    have st1: "staticOf ?s1 = staticOf s" by simp
    have p1: "flushTimer ?s1 = Some ?d" by (simp add: s1)
    have p3: "int (length (buffer ?s1)) + int (length (acceptedIds (contracts ?s1) rest))
              < maxSize (bufferConfig ?s1)"
      using fewer by (simp add: s1)
    note inv = burst_invariant [OF p1 burst p3]
    have ids1: "map event_id (buffer ?s1) = [uid]"
      by (simp add: s1 buildEvent_def)
    have run': "?s' = snd (run rest ?s1)" by (simp add: Let_def)
    show quiet: "destinationCalls (fst (run ?calls s)) = []"
      using inv q1 by (simp add: Let_def)
    show timer: "flushTimer ?s' = Some ?d"
      using inv by (simp add: Let_def)
    show ids: "map event_id (buffer ?s') = acceptedIds (contracts s) ?calls"
      using inv acc ids1 staticD(3) [OF st1] by (simp add: Let_def)
    have st: "staticOf ?s' = staticOf s" by (rule run_static)
    have "state (consent_mgr ?s') = state (consent_mgr ?s1)"
      using inv by (simp only: run')
    then have cst: "state (consent_mgr ?s') = state (consent_mgr s)" by simp
    have reg': "(n, entry) \<in> set (destinations ?s')"
      and dist': "distinct (map fst (destinations ?s'))"
      using reg dist staticD(2) [OF st] by simp_all
    have ok': "isAllowed (consent_mgr ?s') (requiredConsent entry)"
      using isAllowed_state [OF cst] ok by simp
    show "\<forall>t. t < ?d \<longrightarrow> destinationCalls (fst (advanceTo t ?s')) = []"
      using advanceTo_before(3) [of ?s'] timer by blast
    show "\<forall>t. ?d \<le> t \<longrightarrow>
            transformCalls n (fst (advanceTo t ?s')) = buffer ?s'
            \<and> sendCalls n (fst (advanceTo t ?s'))
                = concat (map (\<lambda>ev. case transform (destination entry) ev of
                                        Returns (Some p) \<Rightarrow> [p] | _ \<Rightarrow> [])
                              (buffer ?s'))
            \<and> buffer (snd (advanceTo t ?s')) = []
            \<and> flushTimer (snd (advanceTo t ?s')) = None"
    proof (intro allI impI conjI)
      fix t assume due: "?d \<le> t"
      show "transformCalls n (fst (advanceTo t ?s')) = buffer ?s'"
        by (rule advanceTo_due_calls(1) [OF timer due reg' dist' ok'])
      show "sendCalls n (fst (advanceTo t ?s'))
                = concat (map (\<lambda>ev. case transform (destination entry) ev of
                                        Returns (Some p) \<Rightarrow> [p] | _ \<Rightarrow> [])
                              (buffer ?s'))"
        using advanceTo_due_calls(2) [OF timer due reg' dist' ok'] by (simp only: po)
      show "buffer (snd (advanceTo t ?s')) = []"
        by (rule advanceTo_due(2) [OF timer due])
      show "flushTimer (snd (advanceTo t ?s')) = None"
        by (rule advanceTo_due(3) [OF timer due])
    qed
    show "\<forall>uid' e' a' ps'.
              accepted (contracts s) e' a' ps'
              \<and> int (length (acceptedIds (contracts s) ?calls)) + 1 = maxSize (bufferConfig s)
              \<longrightarrow> map event_id (transformCalls n (fst (track uid' e' a' ps' ?s')))
                    = acceptedIds (contracts s) ?calls @ [uid']"
    proof (intro allI impI)
      fix uid' e' a' ps'
      assume n: "accepted (contracts s) e' a' ps'
              \<and> int (length (acceptedIds (contracts s) ?calls)) + 1 = maxSize (bufferConfig s)"
      have acc': "accepted (contracts ?s') e' a' ps'"
        using n staticD(3) [OF st] by simp
      have "length (buffer ?s') = length (acceptedIds (contracts s) ?calls)"
        using arg_cong [OF ids, of length] by simp
      then have full: "maxSize (bufferConfig ?s') \<le> int (length (buffer ?s')) + 1"
        using n staticD(4) [OF st] by simp
      show "map event_id (transformCalls n (fst (track uid' e' a' ps' ?s')))
                    = acceptedIds (contracts s) ?calls @ [uid']"
        using track_flushes_calls(1) [OF acc' full reg' dist' ok', of uid'] ids by simp
    qed
  }
  show "maxWait (bufferConfig s) \<le> setTimeoutDelay (maxWait (bufferConfig s))"
    if "maxWait (bufferConfig s) \<le> 2147483647"
    using that by (rule setTimeoutDelay_bounds(2))
  show "setTimeoutDelay (maxWait (bufferConfig s)) = maxWait (bufferConfig s)"
    if "1 \<le> maxWait (bufferConfig s) \<and> maxWait (bufferConfig s) \<le> 2147483647"
    using that by (simp add: setTimeoutDelay_def)
  show "setTimeoutDelay (maxWait (bufferConfig s)) = 1"
    if "2147483647 < maxWait (bufferConfig s)"
    using that by (simp add: setTimeoutDelay_def)
  show "(flushTimer (snd (run cs (createCollector opts anon nav now))) = None)
        = (buffer (snd (run cs (createCollector opts anon nav now))) = [])"
    by (rule reachable_timer_iff_buffer)
qed


theorem buffer_flush_law_witness:
  "map event_id (transformCalls ''test-destination''
      (fst (track ''e1'' ''a'' ''1'' None (bufferCollector 1 1000)))) = [''e1'']
   \<and> destinationCalls (fst (track ''e1'' ''a'' ''1'' None (bufferCollector 3 1000))) = []
   \<and> flushTimer (snd (track ''e1'' ''a'' ''1'' None (bufferCollector 3 1000))) = Some 1000
   \<and> destinationCalls
        (fst (run [Track ''e1'' ''a'' ''1'' None, AdvanceTo 500, Track ''e2'' ''a'' ''2'' None]
        (bufferCollector 3 1000))) = []
   \<and> flushTimer (snd (run [Track ''e1'' ''a'' ''1'' None, AdvanceTo 500, Track ''e2'' ''a'' ''2'' None]
        (bufferCollector 3 1000))) = Some 1000
   \<and> destinationCalls (fst (advanceTo 999
        (snd (run [Track ''e1'' ''a'' ''1'' None, AdvanceTo 500, Track ''e2'' ''a'' ''2'' None]
           (bufferCollector 3 1000))))) = []
   \<and> map event_id (transformCalls ''test-destination'' (fst (advanceTo 1000
        (snd (run [Track ''e1'' ''a'' ''1'' None, AdvanceTo 500, Track ''e2'' ''a'' ''2'' None]
           (bufferCollector 3 1000)))))) = [''e1'', ''e2'']
   \<and> map event_id (transformCalls ''test-destination'' (fst (track ''e3'' ''a'' ''3'' None
        (snd (run [Track ''e1'' ''a'' ''1'' None, AdvanceTo 500, Track ''e2'' ''a'' ''2'' None]
           (bufferCollector 3 1000)))))) = [''e1'', ''e2'', ''e3'']
   \<and> setTimeoutDelay (maxWait (bufferConfig (bufferCollector 3 1000))) = 1000
   \<and> setTimeoutDelay (maxWait (bufferConfig (bufferCollector 3 3000000000))) = 1"
proof -
  let ?entry = "mockEntry (mockDestination ''test-destination'' [''analytics''])"
  let ?rest = "[AdvanceTo 500, Track ''e2'' ''a'' ''2'' None]"
  let ?calls = "Track ''e1'' ''a'' ''1'' None # ?rest"
  let ?s' = "snd (run ?calls (bufferCollector 3 1000))"
  have init: "buffer (bufferCollector n w) = []" "flushTimer (bufferCollector n w) = None"
    "contracts (bufferCollector n w) = []" "clock (bufferCollector n w) = 0"
    "maxSize (bufferConfig (bufferCollector n w)) = n"
    "maxWait (bufferConfig (bufferCollector n w)) = w" for n w
    by (simp_all add: bufferCollector_def testCollector_def createCollector_def makeOptions_def)
  have dests: "destinations (bufferCollector n w) = [(''test-destination'', ?entry)]" for n w
    by (simp add: bufferCollector_def testCollector_def createCollector_def makeOptions_def
          registerDestinations_def mockEntry_def mockDestination_def)
  have reg: "(''test-destination'', ?entry) \<in> set (destinations (bufferCollector n w))"
    and dist: "distinct (map fst (destinations (bufferCollector n w)))" for n w
    by (simp_all add: dests)
  have ok: "isAllowed (consent_mgr (bufferCollector n w)) (requiredConsent ?entry)" for n w
    by (simp add: bufferCollector_def testCollector_def createCollector_def makeOptions_def
          createConsentManager_def spread_def isAllowed_def requiredConsent_def mockEntry_def
          mockDestination_def)
  have acc: "accepted [] e a ps" for e a ps
    by (simp add: accepted_def findContract_def)
  have h1: "accepted (contracts (bufferCollector 1 1000)) ''a'' ''1'' None
            \<and> maxSize (bufferConfig (bufferCollector 1 1000))
                \<le> int (length (buffer (bufferCollector 1 1000))) + 1"
    by (simp add: init acc)
  have h2: "accepted (contracts (bufferCollector 3 1000)) ''a'' ''1'' None
            \<and> int (length (buffer (bufferCollector 3 1000))) + 1
                < maxSize (bufferConfig (bufferCollector 3 1000))"
    by (simp add: init acc)
  have ids: "acceptedIds (contracts (bufferCollector 3 1000)) ?calls = [''e1'', ''e2'']"
    by (simp add: init acc)
  have d: "clock (bufferCollector 3 1000)
           + setTimeoutDelay (maxWait (bufferConfig (bufferCollector 3 1000))) = 1000"
    by (simp add: init setTimeoutDelay_def)
  have h3: "buffer (bufferCollector 3 1000) = [] \<and> flushTimer (bufferCollector 3 1000) = None
      \<and> accepted (contracts (bufferCollector 3 1000)) ''a'' ''1'' None
      \<and> burstBefore (clock (bufferCollector 3 1000)
            + setTimeoutDelay (maxWait (bufferConfig (bufferCollector 3 1000)))) ?rest
      \<and> int (length (acceptedIds (contracts (bufferCollector 3 1000)) ?calls))
          < maxSize (bufferConfig (bufferCollector 3 1000))"
    unfolding d by (simp add: init acc)
  note t1 = buffer_flush_law [where s = "bufferCollector 1 1000" and n = "''test-destination''"
      and entry = ?entry and e = "''a''" and a = "''1''" and ps = None and uid = "''e1''",
      OF reg dist ok]
  note t2 = buffer_flush_law [where s = "bufferCollector 3 1000" and n = "''test-destination''"
      and entry = ?entry and e = "''a''" and a = "''1''" and ps = None and uid = "''e1''"
      and rest = ?rest, OF reg dist ok]
  note t3 = buffer_flush_law [where s = "bufferCollector 3 3000000000"
      and n = "''test-destination''" and entry = ?entry, OF reg dist ok]
  from t1 h1 have a: "map event_id (transformCalls ''test-destination''
                         (fst (track ''e1'' ''a'' ''1'' None (bufferCollector 1 1000))))
                      = map event_id (buffer (bufferCollector 1 1000)) @ [''e1'']"
    by blast
  from t2 h2 have b: "destinationCalls (fst (track ''e1'' ''a'' ''1'' None (bufferCollector 3 1000))) = []
      \<and> flushTimer (snd (track ''e1'' ''a'' ''1'' None (bufferCollector 3 1000)))
          = (case flushTimer (bufferCollector 3 1000) of
               None \<Rightarrow> Some (clock (bufferCollector 3 1000)
                              + setTimeoutDelay (maxWait (bufferConfig (bufferCollector 3 1000))))
             | Some d \<Rightarrow> Some d)"
    by blast
  from t2 h3 have c:
    "destinationCalls (fst (run ?calls (bufferCollector 3 1000))) = []"
    "flushTimer ?s' = Some (clock (bufferCollector 3 1000)
                             + setTimeoutDelay (maxWait (bufferConfig (bufferCollector 3 1000))))"
    "map event_id (buffer ?s') = acceptedIds (contracts (bufferCollector 3 1000)) ?calls"
    "\<forall>t. t < clock (bufferCollector 3 1000)
                + setTimeoutDelay (maxWait (bufferConfig (bufferCollector 3 1000)))
         \<longrightarrow> destinationCalls (fst (advanceTo t ?s')) = []"
    "\<forall>t. clock (bufferCollector 3 1000)
            + setTimeoutDelay (maxWait (bufferConfig (bufferCollector 3 1000))) \<le> t
         \<longrightarrow> transformCalls ''test-destination'' (fst (advanceTo t ?s')) = buffer ?s'"
    "\<forall>uid' e' a' ps'.
        accepted (contracts (bufferCollector 3 1000)) e' a' ps'
        \<and> int (length (acceptedIds (contracts (bufferCollector 3 1000)) ?calls)) + 1
            = maxSize (bufferConfig (bufferCollector 3 1000))
        \<longrightarrow> map event_id (transformCalls ''test-destination'' (fst (track uid' e' a' ps' ?s')))
              = acceptedIds (contracts (bufferCollector 3 1000)) ?calls @ [uid']"
    by blast+
  from a have a': "map event_id (transformCalls ''test-destination''
                      (fst (track ''e1'' ''a'' ''1'' None (bufferCollector 1 1000)))) = [''e1'']"
    by (simp add: init)
  from b have b': "destinationCalls (fst (track ''e1'' ''a'' ''1'' None (bufferCollector 3 1000))) = []"
    "flushTimer (snd (track ''e1'' ''a'' ''1'' None (bufferCollector 3 1000))) = Some 1000"
    by (simp_all add: init setTimeoutDelay_def)
  from c(2) have c2: "flushTimer ?s' = Some 1000" by (simp only: d)
  have "(999::int) < 1000" and "(1000::int) \<le> 1000" by simp_all
  with c(4,5) have c4: "destinationCalls (fst (advanceTo 999 ?s')) = []"
    and "transformCalls ''test-destination'' (fst (advanceTo 1000 ?s')) = buffer ?s'"
    unfolding d by blast+
  with c(3) have c5: "map event_id (transformCalls ''test-destination'' (fst (advanceTo 1000 ?s')))
                      = [''e1'', ''e2'']"
    by (simp only: ids)
  have "accepted (contracts (bufferCollector 3 1000)) ''a'' ''3'' None
        \<and> int (length (acceptedIds (contracts (bufferCollector 3 1000)) ?calls)) + 1
            = maxSize (bufferConfig (bufferCollector 3 1000))"
    by (simp only: ids) (simp add: init acc)
  with c(6) have "map event_id (transformCalls ''test-destination'' (fst (track ''e3'' ''a'' ''3'' None ?s')))
              = acceptedIds (contracts (bufferCollector 3 1000)) ?calls @ [''e3'']"
    by blast
  then have c6: "map event_id (transformCalls ''test-destination'' (fst (track ''e3'' ''a'' ''3'' None ?s')))
              = [''e1'', ''e2'', ''e3'']"
    by (simp only: ids append.simps)
  have "1 \<le> maxWait (bufferConfig (bufferCollector 3 1000))
        \<and> maxWait (bufferConfig (bufferCollector 3 1000)) \<le> 2147483647"
    by (simp add: init)
  with t2 have e1: "setTimeoutDelay (maxWait (bufferConfig (bufferCollector 3 1000)))
                    = maxWait (bufferConfig (bufferCollector 3 1000))"
    by blast
  then have e1': "setTimeoutDelay (maxWait (bufferConfig (bufferCollector 3 1000))) = 1000"
    by (simp add: init)
  have "2147483647 < maxWait (bufferConfig (bufferCollector 3 3000000000))"
    by (simp add: init)
  with t3 have e2: "setTimeoutDelay (maxWait (bufferConfig (bufferCollector 3 3000000000))) = 1"
    by blast
  from a' b' c(1) c2 c4 c5 c6 e1' e2 show ?thesis by blast
qed

text \<open>
  C7 as stated fails for a \<open>maxWait\<close> above 2147483647: \<open>setTimeout\<close> waits 1 ms,
  so with \<open>maxWait = 3000000000\<close> the one buffered event is handed to the destination
  when 1 ms has passed.
\<close>

theorem buffer_flush_long_wait_counterexample:
  "maxWait (bufferConfig (bufferCollector 3 3000000000)) = 3000000000
   \<and> clock (bufferCollector 3 3000000000) = 0
   \<and> flushTimer (snd (track ''e1'' ''a'' ''1'' None (bufferCollector 3 3000000000))) = Some 1
   \<and> map event_id (transformCalls ''test-destination''
        (fst (advanceTo 1 (snd (track ''e1'' ''a'' ''1'' None (bufferCollector 3 3000000000))))))
     = [''e1'']"
  by code_simp

section \<open>Expiry of the consent queue\<close>

lemma fireSweep_fields:
  "queue (consent_mgr (fireSweep s))
   = filter (\<lambda>q. max (clock s) (nextSweep (consent_mgr s)) - queuedAt q
                  < queueTimeout (cm_config (consent_mgr s))) (queue (consent_mgr s))"
  "clock (fireSweep s) = max (clock s) (nextSweep (consent_mgr s))"
  "nextSweep (consent_mgr (fireSweep s))
   = nextSweep (consent_mgr s) + sweepInterval (cm_config (consent_mgr s))"
  "cm_config (consent_mgr (fireSweep s)) = cm_config (consent_mgr s)"
  by (simp_all add: fireSweep_def Let_def sweep_def)

lemma filter_later_sweep:
  fixes L1 L2 T :: int
  assumes "L1 \<le> L2"
  shows "filter (\<lambda>q. L2 - queuedAt q < T) (filter (\<lambda>q. L1 - queuedAt q < T) xs)
         = filter (\<lambda>q. L2 - queuedAt q < T) xs"
proof -
  have "(L1 - queuedAt q < T \<and> L2 - queuedAt q < T) = (L2 - queuedAt q < T)" for q :: "'a QueuedEvent_scheme"
    using assms by auto
  then show ?thesis by simp
qed

lemma last_sweep_time:
  fixes cw cl nw N I d :: int
  assumes "cw = max cl (nw - I)" and "nw \<le> N - I" and "d < nw" and "0 < I"
  shows "max (max cw d) (N - I) = max cl (N - I)"
  using assms by auto

text \<open>The sweeps that come due up to \<open>t\<close> leave what the last of them leaves.\<close>

lemma runSweeps_queue:
  "sweepDue t s \<Longrightarrow>
   (\<exists>k::nat. nextSweep (consent_mgr (runSweeps t s))
        = nextSweep (consent_mgr s) + (int k + 1) * sweepInterval (cm_config (consent_mgr s)))
   \<and> nextSweep (consent_mgr (runSweeps t s)) - sweepInterval (cm_config (consent_mgr s)) \<le> t
   \<and> t < nextSweep (consent_mgr (runSweeps t s))
   \<and> clock (runSweeps t s)
       = max (clock s) (nextSweep (consent_mgr (runSweeps t s))
                        - sweepInterval (cm_config (consent_mgr s)))
   \<and> queue (consent_mgr (runSweeps t s))
       = filter (\<lambda>q. max (clock s) (nextSweep (consent_mgr (runSweeps t s))
                                      - sweepInterval (cm_config (consent_mgr s)))
                      - queuedAt q < queueTimeout (cm_config (consent_mgr s)))
           (queue (consent_mgr s))"
proof (induction t s rule: runSweeps.induct)
  case (1 t s)
  let ?I = "sweepInterval (cm_config (consent_mgr s))"
  let ?T = "queueTimeout (cm_config (consent_mgr s))"
  let ?n0 = "nextSweep (consent_mgr s)"
  let ?s1 = "fireSweep s"
  from "1.prems" have pos: "0 < ?T" and due: "?n0 \<le> t" by (simp_all add: sweepDue_def)
  from pos have ipos: "0 < ?I" by (simp add: sweepInterval_def)
  have step: "runSweeps t s = runSweeps t ?s1"
    using "1.prems" by (subst runSweeps.simps) simp
  show ?case
  proof (cases "sweepDue t ?s1")
    case False
    then have stop: "runSweeps t ?s1 = ?s1" by (subst runSweeps.simps) simp
    have next1: "nextSweep (consent_mgr (runSweeps t s)) = ?n0 + ?I"
      by (simp add: step stop fireSweep_fields)
    from False pos have late: "t < ?n0 + ?I"
      by (simp add: sweepDue_def fireSweep_fields)
    have k: "\<exists>k::nat. nextSweep (consent_mgr (runSweeps t s)) = ?n0 + (int k + 1) * ?I"
      by (rule exI [of _ 0]) (simp add: next1)
    have c: "clock (runSweeps t s) = max (clock s) (nextSweep (consent_mgr (runSweeps t s)) - ?I)"
      by (simp add: next1) (simp add: step stop fireSweep_fields)
    have q: "queue (consent_mgr (runSweeps t s))
             = filter (\<lambda>q. max (clock s) (nextSweep (consent_mgr (runSweeps t s)) - ?I)
                            - queuedAt q < ?T) (queue (consent_mgr s))"
      by (simp add: next1) (simp add: step stop fireSweep_fields)
    from k due late next1 c q show ?thesis by simp
  next
    case True
    let ?N = "nextSweep (consent_mgr (runSweeps t ?s1))"
    from "1.IH" [OF "1.prems" True]
    obtain k :: nat where
      k: "?N = (?n0 + ?I) + (int k + 1) * ?I"
      and lo: "?N - ?I \<le> t" and hi: "t < ?N"
      and c: "clock (runSweeps t ?s1) = max (max (clock s) ?n0) (?N - ?I)"
      and q: "queue (consent_mgr (runSweeps t ?s1))
              = filter (\<lambda>q. max (max (clock s) ?n0) (?N - ?I) - queuedAt q < ?T)
                  (filter (\<lambda>q. max (clock s) ?n0 - queuedAt q < ?T) (queue (consent_mgr s)))"
      by (auto simp: fireSweep_fields)
    have "0 \<le> int k * ?I" using ipos by simp
    then have far: "?n0 \<le> ?N - ?I" using k ipos by (simp add: algebra_simps)
    then have m: "max (max (clock s) ?n0) (?N - ?I) = max (clock s) (?N - ?I)" by simp
    have le: "max (clock s) ?n0 \<le> max (clock s) (?N - ?I)" using far by simp
    have k': "\<exists>k::nat. ?N = ?n0 + (int k + 1) * ?I"
      by (rule exI [of _ "Suc k"]) (simp add: k algebra_simps)
    have q': "queue (consent_mgr (runSweeps t ?s1))
              = filter (\<lambda>q. max (clock s) (?N - ?I) - queuedAt q < ?T) (queue (consent_mgr s))"
      unfolding q m by (rule filter_later_sweep [OF le])
    from k' lo hi c m q' show ?thesis by (simp add: step)
  qed
qed

lemma runSweeps_idle: "\<not> sweepDue t s \<Longrightarrow> runSweeps t s = s"
  by (subst runSweeps.simps) simp

text \<open>What a dispatch adds to the consent queue carries the time of the dispatch.\<close>

lemma dispatchAll_queue:
  "\<exists>added. queue (consent_mgr (snd (dispatchAll evs s))) = queue (consent_mgr s) @ added
            \<and> (\<forall>q \<in> set added. queuedAt q = clock s \<and> event q \<in> set evs)"
proof (induction evs arbitrary: s)
  case Nil
  show ?case by simp
next
  case (Cons ev evs)
  let ?s1 = "snd (dispatchToDestinations ev s)"
  have fr: "frameOf ?s1 = frameOf s" by simp
  from Cons.IH [of ?s1] obtain added where
    a: "queue (consent_mgr (snd (dispatchAll evs ?s1))) = queue (consent_mgr ?s1) @ added"
    and b: "\<forall>q \<in> set added. queuedAt q = clock ?s1 \<and> event q \<in> set evs"
    by blast
  let ?new = "if queueTimeout (cm_config (consent_mgr s)) \<noteq> 0
              then replicate (length (filter (blockedPending (consent_mgr s)) (destinations s)))
                     \<lparr> event = ev, queuedAt = clock s \<rparr>
              else []"
  have q1: "queue (consent_mgr ?s1) = queue (consent_mgr s) @ ?new"
    by (rule dispatchToDestinations_queue)
  have "queue (consent_mgr (snd (dispatchAll (ev # evs) s)))
        = queue (consent_mgr s) @ (?new @ added)"
    using a q1 by (simp add: Let_def)
  moreover have "\<forall>q \<in> set (?new @ added). queuedAt q = clock s \<and> event q \<in> set (ev # evs)"
    using b frameD(8) [OF fr] by auto
  ultimately show ?case by blast
qed

lemma flushBuffer_queue:
  "\<exists>added. queue (consent_mgr (snd (flushBuffer s))) = queue (consent_mgr s) @ added
            \<and> (\<forall>q \<in> set added. queuedAt q = clock s \<and> event q \<in> set (buffer s))"
proof (cases "buffer s = []")
  case True
  then show ?thesis by (simp add: flushBuffer_def)
next
  case False
  from dispatchAll_queue [of "buffer s" "s\<lparr>flushTimer := None, buffer := []\<rparr>"] False
  show ?thesis by (simp add: flushBuffer_def Let_def)
qed


lemma runMicrotasks_fields:
  "consent_mgr (snd (runMicrotasks s)) = consent_mgr s"
  "clock (snd (runMicrotasks s)) = clock s"
  "flushTimer (snd (runMicrotasks s)) = flushTimer s"
  "buffer (snd (runMicrotasks s)) = buffer s"
  by (simp_all add: runMicrotasks_def)

lemma flushBuffer_sweep_fields:
  "clock (snd (flushBuffer s)) = clock s"
  "nextSweep (consent_mgr (snd (flushBuffer s))) = nextSweep (consent_mgr s)"
  "cm_config (consent_mgr (snd (flushBuffer s))) = cm_config (consent_mgr s)"
proof -
  let ?x = "s\<lparr>flushTimer := None, buffer := []\<rparr>"
  have fr: "frameOf (snd (dispatchAll (buffer s) ?x)) = frameOf ?x" by simp
  show "clock (snd (flushBuffer s)) = clock s"
    using frameD(8) [OF fr] by (simp add: flushBuffer_def Let_def)
  show "nextSweep (consent_mgr (snd (flushBuffer s))) = nextSweep (consent_mgr s)"
    using frameD(4) [OF fr] by (simp add: flushBuffer_def Let_def)
  show "cm_config (consent_mgr (snd (flushBuffer s))) = cm_config (consent_mgr s)"
    using frameD(3) [OF fr] by (simp add: flushBuffer_def Let_def)
qed

text \<open>
  The consent queue when time has passed to \<open>t\<close>: of the entries it held, those the
  last sweep fired keeps, in order; behind them what the flush of the buffer has
  enqueued, if the flush timer came due on the way.
\<close>

lemma advanceTo_queue:
  "(\<exists>added.
      queue (consent_mgr (snd (advanceTo t s)))
        = (if sweepDue t s
           then filter (\<lambda>q. max (clock s) (nextSweep (consent_mgr (snd (advanceTo t s)))
                                           - sweepInterval (cm_config (consent_mgr s)))
                          - queuedAt q < queueTimeout (cm_config (consent_mgr s)))
                  (queue (consent_mgr s))
           else queue (consent_mgr s)) @ added
      \<and> (\<forall>q \<in> set added. \<exists>d. flushTimer s = Some d \<and> d \<le> t
                                \<and> queuedAt q = max (clock s) d \<and> event q \<in> set (buffer s)))
   \<and> (sweepDue t s \<longrightarrow>
        (\<exists>k::nat. nextSweep (consent_mgr (snd (advanceTo t s)))
             = nextSweep (consent_mgr s) + (int k + 1) * sweepInterval (cm_config (consent_mgr s)))
        \<and> nextSweep (consent_mgr (snd (advanceTo t s)))
            - sweepInterval (cm_config (consent_mgr s)) \<le> t
        \<and> t < nextSweep (consent_mgr (snd (advanceTo t s))))
   \<and> (\<not> sweepDue t s \<longrightarrow>
        nextSweep (consent_mgr (snd (advanceTo t s))) = nextSweep (consent_mgr s))"
proof -
  let ?I = "sweepInterval (cm_config (consent_mgr s))"
  let ?T = "queueTimeout (cm_config (consent_mgr s))"
  let ?nx = "nextSweep (consent_mgr s)"
  let ?cl = "clock s"
  let ?m = "snd (runMicrotasks s)"
  let ?res = "snd (advanceTo t s)"
  let ?P = "\<lambda>L q. L - queuedAt q < ?T"
  let ?L = "max ?cl (nextSweep (consent_mgr ?res) - ?I)"
  let ?fromFlush = "\<lambda>B. \<forall>q \<in> set B. \<exists>d. flushTimer s = Some d \<and> d \<le> t
                                \<and> queuedAt q = max ?cl d \<and> event q \<in> set (buffer s)"
  have swept: ?thesis
    if "sweepDue t s"
      and "queue (consent_mgr ?res) = filter (?P ?L) (queue (consent_mgr s)) @ B"
      and "?fromFlush B"
      and "\<exists>k::nat. nextSweep (consent_mgr ?res) = ?nx + (int k + 1) * ?I"
      and "nextSweep (consent_mgr ?res) - ?I \<le> t"
      and "t < nextSweep (consent_mgr ?res)" for B
  proof -
    from that(2,3) have "\<exists>added. queue (consent_mgr ?res)
                            = filter (?P ?L) (queue (consent_mgr s)) @ added \<and> ?fromFlush added"
      by blast
    with that(1,4,5,6) show ?thesis by simp
  qed
  have idle: ?thesis
    if "\<not> sweepDue t s"
      and "queue (consent_mgr ?res) = queue (consent_mgr s) @ B"
      and "?fromFlush B"
      and "nextSweep (consent_mgr ?res) = ?nx" for B
  proof -
    from that(2,3) have "\<exists>added. queue (consent_mgr ?res) = queue (consent_mgr s) @ added
                            \<and> ?fromFlush added"
      by blast
    with that(1,4) show ?thesis by simp
  qed
  have m: "queue (consent_mgr ?m) = queue (consent_mgr s)" "clock ?m = ?cl"
    "nextSweep (consent_mgr ?m) = ?nx" "cm_config (consent_mgr ?m) = cm_config (consent_mgr s)"
    "flushTimer ?m = flushTimer s" "buffer ?m = buffer s"
    by (simp_all add: runMicrotasks_fields)
  have due_m: "sweepDue x ?m = sweepDue x s" for x by (simp add: sweepDue_def m)
  have settle_cm: "consent_mgr (settle x y) = consent_mgr (runSweeps x y)" for x y
    by (simp add: settle_def Let_def)
  show ?thesis
  proof (cases "flushTimer s = None \<or> (\<exists>d. flushTimer s = Some d \<and> t < d)")
    case True
    then have res: "?res = settle t ?m"
      by (auto simp: advanceTo_def Let_def m split: option.split)
    have cm: "consent_mgr ?res = consent_mgr (runSweeps t ?m)" by (simp add: res settle_cm)
    have none: "?fromFlush []" by simp
    show ?thesis
    proof (cases "sweepDue t s")
      case due: True
      then have "sweepDue t ?m" by (simp add: due_m)
      from runSweeps_queue [OF this]
      have k: "\<exists>k::nat. nextSweep (consent_mgr ?res) = ?nx + (int k + 1) * ?I"
        and lo: "nextSweep (consent_mgr ?res) - ?I \<le> t"
        and hi: "t < nextSweep (consent_mgr ?res)"
        and q: "queue (consent_mgr ?res) = filter (?P ?L) (queue (consent_mgr s)) @ []"
        by (simp_all add: cm m)
      show ?thesis by (rule swept [OF due q none k lo hi])
    next
      case rest: False
      then have "runSweeps t ?m = ?m" using runSweeps_idle [of t ?m] by (simp add: due_m)
      then have q: "queue (consent_mgr ?res) = queue (consent_mgr s) @ []"
        and n: "nextSweep (consent_mgr ?res) = ?nx"
        by (simp_all add: cm m)
      show ?thesis by (rule idle [OF rest q none n])
    qed
  next
    case False
    then obtain d where ft: "flushTimer s = Some d" and dt: "d \<le> t"
      by (cases "flushTimer s") auto
    let ?w = "runSweeps d ?m"
    let ?c = "?w\<lparr> clock := max (clock ?w) d \<rparr>"
    let ?f = "snd (flushBuffer ?c)"
    let ?g = "snd (runMicrotasks ?f)"
    let ?N = "nextSweep (consent_mgr (runSweeps t ?g))"
    have res: "?res = settle t ?g"
      using ft dt by (simp add: advanceTo_def Let_def fireFlushTimer_def m)
    have cm: "consent_mgr ?res = consent_mgr (runSweeps t ?g)" by (simp add: res settle_cm)
    have nres: "?N = nextSweep (consent_mgr ?res)"
      and qres: "queue (consent_mgr (runSweeps t ?g)) = queue (consent_mgr ?res)"
      by (simp_all only: cm)
    have bw: "buffer ?w = buffer s"
      using bufferD(1) [OF runSweeps_bufferOf, of d ?m] m by simp
    have cfg_w: "cm_config (consent_mgr ?w) = cm_config (consent_mgr s)"
      using staticD(5) [OF runSweeps_static, of d ?m] m by simp
    from flushBuffer_queue [of ?c] obtain A where
      qf: "queue (consent_mgr ?f) = queue (consent_mgr ?w) @ A"
      and A: "\<forall>q \<in> set A. queuedAt q = max (clock ?w) d \<and> event q \<in> set (buffer s)"
      by (auto simp: bw)
    have g: "queue (consent_mgr ?g) = queue (consent_mgr ?w) @ A"
      "clock ?g = max (clock ?w) d"
      "nextSweep (consent_mgr ?g) = nextSweep (consent_mgr ?w)"
      "cm_config (consent_mgr ?g) = cm_config (consent_mgr s)"
      by (simp_all add: runMicrotasks_fields qf flushBuffer_sweep_fields cfg_w)
    have due_g: "sweepDue t ?g = (0 < ?T \<and> nextSweep (consent_mgr ?w) \<le> t)"
      by (simp add: sweepDue_def g)
    have added_ok: "?fromFlush B"
      if "set B \<subseteq> set A" and "max (clock ?w) d = max ?cl d" for B
      using that A ft dt by auto
    show ?thesis
    proof (cases "sweepDue d s")
      case first: True
      then have "sweepDue d ?m" by (simp add: due_m)
      from runSweeps_queue [OF this]
      have w_k: "\<exists>k::nat. nextSweep (consent_mgr ?w) = ?nx + (int k + 1) * ?I"
        and w_lo: "nextSweep (consent_mgr ?w) - ?I \<le> d"
        and w_hi: "d < nextSweep (consent_mgr ?w)"
        and w_c: "clock ?w = max ?cl (nextSweep (consent_mgr ?w) - ?I)"
        and w_q: "queue (consent_mgr ?w)
                  = filter (?P (max ?cl (nextSweep (consent_mgr ?w) - ?I))) (queue (consent_mgr s))"
        by (simp_all add: m)
      from first have pos: "0 < ?T" by (simp add: sweepDue_def)
      then have ipos: "0 < ?I" by (simp add: sweepInterval_def)
      have dueT: "sweepDue t s" using first dt by (simp add: sweepDue_def)
      have stamp: "max (clock ?w) d = max ?cl d" using w_c w_lo by simp
      show ?thesis
      proof (cases "sweepDue t ?g")
        case False
        then have stop: "runSweeps t ?g = ?g" by (rule runSweeps_idle)
        have n: "nextSweep (consent_mgr ?res) = nextSweep (consent_mgr ?w)"
          by (simp add: cm stop g)
        from False pos have hi: "t < nextSweep (consent_mgr ?w)" by (simp add: due_g)
        have lo: "nextSweep (consent_mgr ?w) - ?I \<le> t" using w_lo dt by simp
        have "queue (consent_mgr ?res) = queue (consent_mgr ?w) @ A"
          by (simp add: cm stop g)
        then have q: "queue (consent_mgr ?res) = filter (?P ?L) (queue (consent_mgr s)) @ A"
          by (simp only: n w_q)
        show ?thesis
          by (rule swept [OF dueT q added_ok [OF subset_refl stamp]])
             (simp_all only: n w_k lo hi)
      next
        case True
        from runSweeps_queue [OF True]
        obtain k :: nat where
          r_k: "?N = nextSweep (consent_mgr ?w) + (int k + 1) * ?I"
          and r_lo: "?N - ?I \<le> t" and r_hi: "t < ?N"
          and r_q: "queue (consent_mgr (runSweeps t ?g))
                    = filter (?P (max (max (clock ?w) d) (?N - ?I))) (queue (consent_mgr ?w) @ A)"
          by (auto simp: g)
        have "0 \<le> int k * ?I" using ipos by simp
        then have far: "nextSweep (consent_mgr ?w) \<le> ?N - ?I"
          using r_k by (simp add: algebra_simps)
        have L: "max (max (clock ?w) d) (?N - ?I) = max ?cl (?N - ?I)"
          by (rule last_sweep_time [OF w_c far w_hi ipos])
        have le: "max ?cl (nextSweep (consent_mgr ?w) - ?I) \<le> max ?cl (?N - ?I)"
          using far ipos by simp
        from w_k obtain j :: nat where j: "nextSweep (consent_mgr ?w) = ?nx + (int j + 1) * ?I" ..
        have "?N = ?nx + (int (Suc (j + k)) + 1) * ?I"
          unfolding r_k j by (simp add: algebra_simps)
        then have k': "\<exists>k::nat. ?N = ?nx + (int k + 1) * ?I" by (rule exI)
        have "filter (?P (max (max (clock ?w) d) (?N - ?I))) (queue (consent_mgr ?w) @ A)
              = filter (?P (max ?cl (?N - ?I))) (queue (consent_mgr ?w))
                @ filter (?P (max ?cl (?N - ?I))) A"
          by (simp only: L filter_append)
        also have "filter (?P (max ?cl (?N - ?I))) (queue (consent_mgr ?w))
                   = filter (?P (max ?cl (?N - ?I))) (queue (consent_mgr s))"
          by (simp only: w_q filter_later_sweep [OF le])
        finally have q0: "queue (consent_mgr (runSweeps t ?g))
                 = filter (?P (max ?cl (?N - ?I))) (queue (consent_mgr s))
                   @ filter (?P (max ?cl (?N - ?I))) A"
          by (simp only: r_q)
        have q: "queue (consent_mgr ?res)
                 = filter (?P ?L) (queue (consent_mgr s)) @ filter (?P ?L) A"
          using q0 by (simp only: nres qres)
        have sub: "set (filter (?P ?L) A) \<subseteq> set A" by simp
        have k_res: "\<exists>k::nat. nextSweep (consent_mgr ?res) = ?nx + (int k + 1) * ?I"
          using k' by (simp only: nres)
        have lo_res: "nextSweep (consent_mgr ?res) - ?I \<le> t" using r_lo by (simp only: nres)
        have hi_res: "t < nextSweep (consent_mgr ?res)" using r_hi by (simp only: nres)
        show ?thesis
          by (rule swept [OF dueT q added_ok [OF sub stamp] k_res lo_res hi_res])
      qed
    next
      case nofirst: False
      then have w: "?w = ?m" using runSweeps_idle [of d ?m] by (simp add: due_m)
      have stamp: "max (clock ?w) d = max ?cl d" by (simp only: w m)
      have gq: "queue (consent_mgr ?g) = queue (consent_mgr s) @ A"
        and gn: "nextSweep (consent_mgr ?g) = ?nx"
        and gc: "clock ?g = max ?cl d"
        using g by (simp_all only: w m)
      have due_gs: "sweepDue t ?g = sweepDue t s"
        by (simp add: sweepDue_def g(4) gn)
      show ?thesis
      proof (cases "sweepDue t s")
        case False
        then have "\<not> sweepDue t ?g" by (simp add: due_gs)
        then have stop: "runSweeps t ?g = ?g" by (rule runSweeps_idle)
        have n: "nextSweep (consent_mgr ?res) = ?nx" by (simp only: cm stop gn)
        have q: "queue (consent_mgr ?res) = queue (consent_mgr s) @ A"
          by (simp only: cm stop gq)
        show ?thesis
          by (rule idle [OF False q added_ok [OF subset_refl stamp] n])
      next
        case dueT: True
        then have pos: "0 < ?T" by (simp add: sweepDue_def)
        then have ipos: "0 < ?I" by (simp add: sweepInterval_def)
        from nofirst pos have early: "d < ?nx" by (simp add: sweepDue_def)
        from dueT have "sweepDue t ?g" by (simp add: due_gs)
        from runSweeps_queue [OF this]
        have r_k: "\<exists>k::nat. ?N = nextSweep (consent_mgr ?g)
                       + (int k + 1) * sweepInterval (cm_config (consent_mgr ?g))"
          and r_lo: "?N - sweepInterval (cm_config (consent_mgr ?g)) \<le> t" and r_hi: "t < ?N"
          and r_q: "queue (consent_mgr (runSweeps t ?g))
                    = filter (\<lambda>q. max (clock ?g) (?N - sweepInterval (cm_config (consent_mgr ?g)))
                                   - queuedAt q < queueTimeout (cm_config (consent_mgr ?g)))
                        (queue (consent_mgr ?g))"
          by blast+
        from r_k obtain k :: nat where
          k: "?N = ?nx + (int k + 1) * ?I" unfolding gn g(4) ..
        from r_lo have lo: "?N - ?I \<le> t" unfolding g(4) .
        from r_q have rq: "queue (consent_mgr (runSweeps t ?g))
                    = filter (?P (max (max ?cl d) (?N - ?I))) (queue (consent_mgr s) @ A)"
          unfolding g(4) gc gq .
        have "0 \<le> int k * ?I" using ipos by simp
        then have far: "?nx \<le> ?N - ?I" using k by (simp add: algebra_simps)
        have L: "max (max ?cl d) (?N - ?I) = max ?cl (?N - ?I)"
          using far early by simp
        have k': "\<exists>k::nat. ?N = ?nx + (int k + 1) * ?I"
          using k by (rule exI)
        have q0: "queue (consent_mgr (runSweeps t ?g))
                 = filter (?P (max ?cl (?N - ?I))) (queue (consent_mgr s))
                   @ filter (?P (max ?cl (?N - ?I))) A"
          unfolding rq L filter_append ..
        have q: "queue (consent_mgr ?res)
                 = filter (?P ?L) (queue (consent_mgr s)) @ filter (?P ?L) A"
          using q0 by (simp only: nres qres)
        have sub: "set (filter (?P ?L) A) \<subseteq> set A" by simp
        have k_res: "\<exists>k::nat. nextSweep (consent_mgr ?res) = ?nx + (int k + 1) * ?I"
          using k' by (simp only: nres)
        have lo_res: "nextSweep (consent_mgr ?res) - ?I \<le> t" using lo by (simp only: nres)
        have hi_res: "t < nextSweep (consent_mgr ?res)" using r_hi by (simp only: nres)
        show ?thesis
          by (rule swept [OF dueT q added_ok [OF sub stamp] k_res lo_res hi_res])
      qed
    qed
  qed
qed


text \<open>In every state a collector reaches, the next sweep lies ahead of the clock.\<close>

lemma track_sweep_fields:
  "clock (snd (track uid e a ps s)) = clock s"
  "nextSweep (consent_mgr (snd (track uid e a ps s))) = nextSweep (consent_mgr s)"
  by (simp_all add: track_def Let_def scheduleFlush_def flushBuffer_sweep_fields
               split: option.split)

lemma consent_sweep_fields:
  "clock (snd (consent update s)) = clock s"
  "nextSweep (consent_mgr (snd (consent update s))) = nextSweep (consent_mgr s)"
proof -
  have "clock (snd (redispatch q x)) = clock x
        \<and> nextSweep (consent_mgr (snd (redispatch q x))) = nextSweep (consent_mgr x)" for q x
    using frameD(4,8) [OF redispatch_frame, of q x] by simp
  then show "clock (snd (consent update s)) = clock s"
    and "nextSweep (consent_mgr (snd (consent update s))) = nextSweep (consent_mgr s)"
    by (simp_all add: consent_def setState_def changeHandler_def drain_def Let_def
                 split: option.split)
qed

lemma runSweeps_clock_before_sweep:
  "clock s \<le> nextSweep (consent_mgr s)
   \<Longrightarrow> clock (runSweeps t s) \<le> nextSweep (consent_mgr (runSweeps t s))"
proof (induction t s rule: runSweeps.induct)
  case (1 t s)
  show ?case
  proof (cases "sweepDue t s")
    case True
    then have step: "runSweeps t s = runSweeps t (fireSweep s)" by (subst runSweeps.simps) simp
    from True have "0 < sweepInterval (cm_config (consent_mgr s))"
      by (simp add: sweepDue_def sweepInterval_def)
    with "1.prems" have "clock (fireSweep s) \<le> nextSweep (consent_mgr (fireSweep s))"
      by (simp add: fireSweep_fields)
    from "1.IH" [OF True this] show ?thesis by (simp add: step)
  next
    case False
    then have "runSweeps t s = s" by (rule runSweeps_idle)
    with "1.prems" show ?thesis by simp
  qed
qed

lemma settle_clock_before_sweep:
  assumes "0 < queueTimeout (cm_config (consent_mgr s))"
      and "clock s \<le> nextSweep (consent_mgr s)"
  shows "clock (settle t s) \<le> nextSweep (consent_mgr (settle t s))"
proof -
  have a: "clock (runSweeps t s) \<le> nextSweep (consent_mgr (runSweeps t s))"
    by (rule runSweeps_clock_before_sweep [OF assms(2)])
  have b: "t < nextSweep (consent_mgr (settle t s))"
    by (rule settle_next_sweep [OF assms(1)])
  have c: "nextSweep (consent_mgr (settle t s)) = nextSweep (consent_mgr (runSweeps t s))"
    and d: "clock (settle t s) = max (clock (runSweeps t s)) t"
    by (simp_all add: settle_def Let_def)
  from a b show ?thesis unfolding c d by simp
qed

lemma advanceTo_clock_before_sweep:
  assumes pos: "0 < queueTimeout (cm_config (consent_mgr s))"
      and inv: "clock s \<le> nextSweep (consent_mgr s)"
  shows "clock (snd (advanceTo t s)) \<le> nextSweep (consent_mgr (snd (advanceTo t s)))"
proof -
  let ?m = "snd (runMicrotasks s)"
  have pm: "0 < queueTimeout (cm_config (consent_mgr ?m))"
    and im: "clock ?m \<le> nextSweep (consent_mgr ?m)"
    using pos inv by (simp_all add: runMicrotasks_fields)
  show ?thesis
  proof (cases "flushTimer s = None \<or> (\<exists>d. flushTimer s = Some d \<and> t < d)")
    case True
    then have "snd (advanceTo t s) = settle t ?m"
      by (auto simp: advanceTo_def Let_def runMicrotasks_fields split: option.split)
    with settle_clock_before_sweep [OF pm im] show ?thesis by simp
  next
    case False
    then obtain d where ft: "flushTimer s = Some d" and dt: "d \<le> t"
      by (cases "flushTimer s") auto
    let ?w = "runSweeps d ?m"
    let ?c = "?w\<lparr> clock := max (clock ?w) d \<rparr>"
    let ?g = "snd (runMicrotasks (snd (flushBuffer ?c)))"
    have res: "snd (advanceTo t s) = settle t ?g"
      using ft dt by (simp add: advanceTo_def Let_def fireFlushTimer_def runMicrotasks_fields)
    have cfg_w: "cm_config (consent_mgr ?w) = cm_config (consent_mgr s)"
      using staticD(5) [OF runSweeps_static, of d ?m] by (simp add: runMicrotasks_fields)
    have iw: "clock ?w \<le> nextSweep (consent_mgr ?w)"
      by (rule runSweeps_clock_before_sweep [OF im])
    have "\<not> sweepDue d ?w" by (rule runSweeps_not_due)
    then have dw: "d < nextSweep (consent_mgr ?w)"
      using pos by (simp add: sweepDue_def cfg_w)
    have pg: "0 < queueTimeout (cm_config (consent_mgr ?g))"
      using pos by (simp add: runMicrotasks_fields flushBuffer_sweep_fields cfg_w)
    have ig: "clock ?g \<le> nextSweep (consent_mgr ?g)"
      using iw dw by (simp add: runMicrotasks_fields flushBuffer_sweep_fields)
    from settle_clock_before_sweep [OF pg ig] show ?thesis by (simp only: res)
  qed
qed

lemma applyCall_clock_before_sweep:
  assumes "0 < queueTimeout (cm_config (consent_mgr s))"
      and "clock s \<le> nextSweep (consent_mgr s)"
  shows "clock (snd (applyCall c s)) \<le> nextSweep (consent_mgr (snd (applyCall c s)))"
proof (cases c)
  case (Track uid e a ps)
  with assms(2) show ?thesis by (simp add: track_sweep_fields)
next
  case (Identify uid u ts)
  with assms(2) show ?thesis by (simp add: identify_def Let_def track_sweep_fields)
next
  case (ConsentCall st)
  with assms(2) show ?thesis by (simp add: consent_sweep_fields)
next
  case Flush
  with assms(2) show ?thesis by (simp add: flush_def flushBuffer_sweep_fields)
next
  case (AdvanceTo t)
  with advanceTo_clock_before_sweep [OF assms] show ?thesis by simp
next
  case Microtasks
  with assms(2) show ?thesis by (simp add: runMicrotasks_fields)
qed

lemma reachable_clock_before_sweep:
  assumes "0 < queueTimeout (cfg_consent (opt_config opts))"
  shows "clock (snd (run cs (createCollector opts anon nav now)))
         \<le> nextSweep (consent_mgr (snd (run cs (createCollector opts anon nav now))))"
proof -
  have step: "clock (snd (run cs s)) \<le> nextSweep (consent_mgr (snd (run cs s)))"
    if "0 < queueTimeout (cm_config (consent_mgr s))" and "clock s \<le> nextSweep (consent_mgr s)"
    for s
    using that
  proof (induction cs arbitrary: s)
    case Nil
    then show ?case by simp
  next
    case (Cons c cs)
    have "0 < queueTimeout (cm_config (consent_mgr (snd (applyCall c s))))"
      using staticD(5) [OF applyCall_static, of c s] Cons.prems(1) by simp
    from Cons.IH [OF this applyCall_clock_before_sweep [OF Cons.prems]] show ?case
      by (simp add: Let_def)
  qed
  let ?s = "createCollector opts anon nav now"
  have a: "0 < queueTimeout (cm_config (consent_mgr ?s))"
    using assms by (simp add: createCollector_def createConsentManager_def Let_def)
  have b: "clock ?s \<le> nextSweep (consent_mgr ?s)"
    using assms
    by (simp add: createCollector_def createConsentManager_def Let_def sweepInterval_def)
  show ?thesis by (rule step [OF a b])
qed


text \<open>
  C9: with \<open>queueTimeout = 0\<close>, \<open>enqueue\<close> changes nothing and the queue of a collector
  stays empty through every sequence of calls. With \<open>queueTimeout > 0\<close> the cleanup
  interval is \<open>min queueTimeout 30000\<close> and the first sweep is due one interval after
  construction; a sweep at time \<open>now\<close> keeps, in order, exactly the entries with
  \<open>now - queuedAt < queueTimeout\<close> and removes those with
  \<open>now - queuedAt \<ge> queueTimeout\<close>.

  When time passes to \<open>t\<close> and a sweep is due by then, the sweeps fire one interval
  apart, the last of them at the latest multiple of the interval that is not after
  \<open>t\<close>, and the next one is due after \<open>t\<close>. Of the entries the queue held before, the
  ones left are exactly those the last sweep keeps, in their order; whatever else the
  queue holds afterwards was enqueued on the way by the flush of the buffer, at the time
  the flush timer was set for, so that nothing else is there when no flush timer comes due
  by \<open>t\<close>. When no sweep is due by \<open>t\<close>, every entry stays. In every state a collector
  reaches from its construction the next sweep is not behind the clock, so that the time
  of the last sweep is the scheduled one.
\<close>

theorem consent_queue_expiry:
  "(queueTimeout (cm_config cm) = 0 \<longrightarrow> enqueue ev now cm = cm)
   \<and> (queueTimeout (cm_config (consent_mgr s)) = 0 \<and> queue (consent_mgr s) = [] \<longrightarrow>
        queue (consent_mgr (snd (run calls s))) = [])
   \<and> (0 < queueTimeout cfg \<longrightarrow>
        sweepInterval cfg \<le> min (queueTimeout cfg) 30000
        \<and> 0 < sweepInterval cfg
        \<and> nextSweep (createConsentManager cfg nav now) = now + sweepInterval cfg)
   \<and> (0 < queueTimeout (cm_config cm) \<longrightarrow>
        queue (sweep now cm)
          = filter (\<lambda>q. now - queuedAt q < queueTimeout (cm_config cm)) (queue cm)
        \<and> (\<forall>q \<in> set (queue cm).
              (now - queuedAt q \<ge> queueTimeout (cm_config cm) \<longrightarrow> q \<notin> set (queue (sweep now cm)))
              \<and> (now - queuedAt q < queueTimeout (cm_config cm) \<longrightarrow> q \<in> set (queue (sweep now cm)))))
   \<and> (0 < queueTimeout (cm_config (consent_mgr s)) \<and> nextSweep (consent_mgr s) \<le> t \<longrightarrow>
        (\<exists>k::nat. nextSweep (consent_mgr (snd (advanceTo t s)))
             = nextSweep (consent_mgr s) + (int k + 1) * sweepInterval (cm_config (consent_mgr s)))
        \<and> nextSweep (consent_mgr (snd (advanceTo t s)))
            - sweepInterval (cm_config (consent_mgr s)) \<le> t
        \<and> t < nextSweep (consent_mgr (snd (advanceTo t s)))
        \<and> (\<exists>added.
              queue (consent_mgr (snd (advanceTo t s)))
                = filter (\<lambda>q. max (clock s) (nextSweep (consent_mgr (snd (advanceTo t s)))
                                               - sweepInterval (cm_config (consent_mgr s)))
                               - queuedAt q < queueTimeout (cm_config (consent_mgr s)))
                    (queue (consent_mgr s)) @ added
              \<and> (\<forall>q \<in> set added. \<exists>d. flushTimer s = Some d \<and> d \<le> t
                      \<and> queuedAt q = max (clock s) d \<and> event q \<in> set (buffer s)))
        \<and> (clock s \<le> nextSweep (consent_mgr s) \<longrightarrow>
              max (clock s) (nextSweep (consent_mgr (snd (advanceTo t s)))
                             - sweepInterval (cm_config (consent_mgr s)))
              = nextSweep (consent_mgr (snd (advanceTo t s)))
                - sweepInterval (cm_config (consent_mgr s))))
   \<and> (0 < queueTimeout (cm_config (consent_mgr s)) \<and> t < nextSweep (consent_mgr s) \<longrightarrow>
        nextSweep (consent_mgr (snd (advanceTo t s))) = nextSweep (consent_mgr s)
        \<and> (\<exists>added.
              queue (consent_mgr (snd (advanceTo t s))) = queue (consent_mgr s) @ added
              \<and> (\<forall>q \<in> set added. \<exists>d. flushTimer s = Some d \<and> d \<le> t
                      \<and> queuedAt q = max (clock s) d \<and> event q \<in> set (buffer s))))
   \<and> (0 < queueTimeout (cfg_consent (opt_config opts)) \<longrightarrow>
        clock (snd (run cs (createCollector opts anon nav now')))
          \<le> nextSweep (consent_mgr (snd (run cs (createCollector opts anon nav now')))))"
proof (intro conjI impI)
  assume "queueTimeout (cm_config cm) = 0"
  then show "enqueue ev now cm = cm" by (simp add: enqueue_def)
next
  assume "queueTimeout (cm_config (consent_mgr s)) = 0 \<and> queue (consent_mgr s) = []"
  then show "queue (consent_mgr (snd (run calls s))) = []" by (simp add: run_queue_off)
next
  show "sweepInterval cfg \<le> min (queueTimeout cfg) 30000" by (simp add: sweepInterval_def)
next
  assume "0 < queueTimeout cfg"
  then show "0 < sweepInterval cfg" by (simp add: sweepInterval_def)
next
  show "nextSweep (createConsentManager cfg nav now) = now + sweepInterval cfg"
    by (simp add: createConsentManager_def Let_def)
next
  show "queue (sweep now cm)
        = filter (\<lambda>q. now - queuedAt q < queueTimeout (cm_config cm)) (queue cm)"
    by (simp add: sweep_def)
next
  show "\<forall>q \<in> set (queue cm).
          (now - queuedAt q \<ge> queueTimeout (cm_config cm) \<longrightarrow> q \<notin> set (queue (sweep now cm)))
          \<and> (now - queuedAt q < queueTimeout (cm_config cm) \<longrightarrow> q \<in> set (queue (sweep now cm)))"
    by (simp add: sweep_def)
next
  let ?I = "sweepInterval (cm_config (consent_mgr s))"
  let ?N = "nextSweep (consent_mgr (snd (advanceTo t s)))"
  assume h: "0 < queueTimeout (cm_config (consent_mgr s)) \<and> nextSweep (consent_mgr s) \<le> t"
  then have due: "sweepDue t s" by (simp add: sweepDue_def)
  from h have ipos: "0 < ?I" by (simp add: sweepInterval_def)
  note aq = advanceTo_queue [of t s]
  from aq due show k: "\<exists>k::nat. ?N = nextSweep (consent_mgr s) + (int k + 1) * ?I"
    and "?N - ?I \<le> t" and "t < ?N"
    by blast+
  from aq due
  show "\<exists>added.
          queue (consent_mgr (snd (advanceTo t s)))
            = filter (\<lambda>q. max (clock s) (?N - ?I) - queuedAt q
                           < queueTimeout (cm_config (consent_mgr s)))
                (queue (consent_mgr s)) @ added
          \<and> (\<forall>q \<in> set added. \<exists>d. flushTimer s = Some d \<and> d \<le> t
                  \<and> queuedAt q = max (clock s) d \<and> event q \<in> set (buffer s))"
    by simp
  {
    assume inv: "clock s \<le> nextSweep (consent_mgr s)"
    from k obtain j :: nat where j: "?N = nextSweep (consent_mgr s) + (int j + 1) * ?I" ..
    have "0 \<le> int j * ?I" using ipos by simp
    then have "nextSweep (consent_mgr s) \<le> ?N - ?I" using j by (simp add: algebra_simps)
    with inv show "max (clock s) (?N - ?I) = ?N - ?I" by simp
  }
next
  assume h: "0 < queueTimeout (cm_config (consent_mgr s)) \<and> t < nextSweep (consent_mgr s)"
  then have idle: "\<not> sweepDue t s" by (simp add: sweepDue_def)
  note aq = advanceTo_queue [of t s]
  from aq idle
  show "nextSweep (consent_mgr (snd (advanceTo t s))) = nextSweep (consent_mgr s)"
    by blast
  from aq idle
  show "\<exists>added.
          queue (consent_mgr (snd (advanceTo t s))) = queue (consent_mgr s) @ added
          \<and> (\<forall>q \<in> set added. \<exists>d. flushTimer s = Some d \<and> d \<le> t
                  \<and> queuedAt q = max (clock s) d \<and> event q \<in> set (buffer s))"
    by simp
next
  assume "0 < queueTimeout (cfg_consent (opt_config opts))"
  then show "clock (snd (run cs (createCollector opts anon nav now')))
          \<le> nextSweep (consent_mgr (snd (run cs (createCollector opts anon nav now'))))"
    by (rule reachable_clock_before_sweep)
qed


theorem consent_queue_expiry_witness:
  "enqueue (pageViewed ''e1'') 0 (createConsentManager (pendingConsentConfig 0) None 0)
     = createConsentManager (pendingConsentConfig 0) None 0
   \<and> queue (consent_mgr (snd (run [Track ''e1'' ''page'' ''viewed'' None, AdvanceTo 3000, Flush]
        (testCollector [] 0 \<lparr> maxSize = 10, maxWait = 2000 \<rparr>
           [mockEntry (mockDestination ''test-destination'' [''analytics''])] [])))) = []
   \<and> sweepInterval (pendingConsentConfig 5000) = 5000
   \<and> queue (sweep 6000 ((createConsentManager (pendingConsentConfig 5000) None 0)
              \<lparr> queue := [queuedPage ''e1'' 0, queuedPage ''e2'' 1000, queuedPage ''e3'' 1001] \<rparr>))
       = [queuedPage ''e3'' 1001]
   \<and> queue (consent_mgr (snd (run [Track ''e1'' ''page'' ''viewed'' None, AdvanceTo 2000,
                                    AdvanceTo 3000] (pendingCollector 5000 onePending))))
       = [queuedPage ''e1'' 2000]
   \<and> queue (consent_mgr (snd (run [Track ''e1'' ''page'' ''viewed'' None, AdvanceTo 2000,
                                    AdvanceTo 5000] (pendingCollector 5000 onePending))))
       = [queuedPage ''e1'' 2000]
   \<and> queue (consent_mgr (snd (run [Track ''e1'' ''page'' ''viewed'' None, AdvanceTo 2000,
                                    AdvanceTo 5000, AdvanceTo 10000]
                                   (pendingCollector 5000 onePending))))
       = []
   \<and> clock (snd (run [Track ''e1'' ''page'' ''viewed'' None, AdvanceTo 2000]
                   (pendingCollector 5000 onePending)))
       \<le> nextSweep (consent_mgr (snd (run [Track ''e1'' ''page'' ''viewed'' None, AdvanceTo 2000]
                                        (pendingCollector 5000 onePending))))"
proof -
  let ?off = "createConsentManager (pendingConsentConfig 0) None 0"
  let ?s = "testCollector [] 0 \<lparr> maxSize = 10, maxWait = 2000 \<rparr>
              [mockEntry (mockDestination ''test-destination'' [''analytics''])] []"
  let ?cm = "(createConsentManager (pendingConsentConfig 5000) None 0)
               \<lparr> queue := [queuedPage ''e1'' 0, queuedPage ''e2'' 1000, queuedPage ''e3'' 1001] \<rparr>"
  let ?init = "pendingCollector 5000 onePending"
  let ?tr = "Track ''e1'' ''page'' ''viewed'' None"
  define A where "A = snd (run [?tr, AdvanceTo 2000] ?init)"
  define B where "B = snd (advanceTo 5000 A)"
  have h0: "queueTimeout (cm_config ?off) = 0"
    by (simp add: createConsentManager_def pendingConsentConfig_def)
  have h1: "queueTimeout (cm_config (consent_mgr ?s)) = 0 \<and> queue (consent_mgr ?s) = []"
    by (simp add: testCollector_def createCollector_def makeOptions_def createConsentManager_def)
  have h2: "0 < queueTimeout (pendingConsentConfig 5000)"
    by (simp add: pendingConsentConfig_def)
  have h3: "0 < queueTimeout (cm_config ?cm)"
    by (simp add: createConsentManager_def pendingConsentConfig_def)
  have c1: "enqueue (pageViewed ''e1'') 0 ?off = ?off"
    using consent_queue_expiry [where cm = ?off and ev = "pageViewed ''e1''" and now = 0] h0
    by simp
  have c2: "queue (consent_mgr (snd (run [?tr, AdvanceTo 3000, Flush] ?s))) = []"
    using consent_queue_expiry [where s = ?s and calls = "[?tr, AdvanceTo 3000, Flush]"] h1
    by simp
  have "sweepInterval (pendingConsentConfig 5000) \<le> min (queueTimeout (pendingConsentConfig 5000)) 30000
           \<and> 0 < sweepInterval (pendingConsentConfig 5000)"
    using consent_queue_expiry [where cfg = "pendingConsentConfig 5000"] h2 by simp
  then have c3: "sweepInterval (pendingConsentConfig 5000) = 5000"
    by (simp add: pendingConsentConfig_def sweepInterval_def)
  have "queue (sweep 6000 ?cm)
           = filter (\<lambda>q. 6000 - queuedAt q < queueTimeout (cm_config ?cm)) (queue ?cm)"
    using consent_queue_expiry [where cm = ?cm and now = 6000] h3 by simp
  then have c4: "queue (sweep 6000 ?cm) = [queuedPage ''e3'' 1001]"
    by (simp add: createConsentManager_def pendingConsentConfig_def queuedPage_def)
  have a: "queueTimeout (cm_config (consent_mgr A)) = 5000"
    "sweepInterval (cm_config (consent_mgr A)) = 5000"
    "nextSweep (consent_mgr A) = 5000" "clock A = 2000" "flushTimer A = None"
    "queue (consent_mgr A) = [queuedPage ''e1'' 2000]"
    "nextSweep (consent_mgr B) = 10000"
    unfolding A_def B_def by code_simp+
  have b: "queueTimeout (cm_config (consent_mgr B)) = 5000"
    "sweepInterval (cm_config (consent_mgr B)) = 5000"
    "clock B = 5000" "flushTimer B = None"
    "nextSweep (consent_mgr (snd (advanceTo 10000 B))) = 15000"
    unfolding A_def B_def by code_simp+
  have none: "added = []"
    if "\<forall>q \<in> set added. \<exists>d. (None :: int option) = Some d \<and> P q d"
    for added :: "QueuedEvent list" and P
    using that by (cases added) auto
  have idle: "0 < queueTimeout (cm_config (consent_mgr A)) \<and> 3000 < nextSweep (consent_mgr A)"
    by (simp add: a)
  from consent_queue_expiry [where s = A and t = 3000] idle
  obtain added where
    "queue (consent_mgr (snd (advanceTo 3000 A))) = queue (consent_mgr A) @ added"
    and "\<forall>q \<in> set added. \<exists>d. flushTimer A = Some d \<and> d \<le> 3000
             \<and> queuedAt q = max (clock A) d \<and> event q \<in> set (buffer A)"
    by blast
  then have "queue (consent_mgr (snd (advanceTo 3000 A))) = [queuedPage ''e1'' 2000]"
    using none [of added] by (simp add: a)
  then have c5: "queue (consent_mgr (snd (run [?tr, AdvanceTo 2000, AdvanceTo 3000] ?init)))
                 = [queuedPage ''e1'' 2000]"
    by (simp add: A_def B_def Let_def)
  have due: "0 < queueTimeout (cm_config (consent_mgr A)) \<and> nextSweep (consent_mgr A) \<le> 5000"
    by (simp add: a)
  from consent_queue_expiry [where s = A and t = 5000] due
  obtain kept where
    "queue (consent_mgr (snd (advanceTo 5000 A)))
       = filter (\<lambda>q. max (clock A) (nextSweep (consent_mgr (snd (advanceTo 5000 A)))
                                      - sweepInterval (cm_config (consent_mgr A)))
                      - queuedAt q < queueTimeout (cm_config (consent_mgr A)))
           (queue (consent_mgr A)) @ kept"
    and "\<forall>q \<in> set kept. \<exists>d. flushTimer A = Some d \<and> d \<le> 5000
             \<and> queuedAt q = max (clock A) d \<and> event q \<in> set (buffer A)"
    by blast
  then have qb: "queue (consent_mgr B) = [queuedPage ''e1'' 2000]"
    using none [of kept] unfolding B_def [symmetric] by (simp add: a queuedPage_def)
  then have c6: "queue (consent_mgr (snd (run [?tr, AdvanceTo 2000, AdvanceTo 5000] ?init)))
                 = [queuedPage ''e1'' 2000]"
    by (simp add: A_def B_def Let_def)
  have due': "0 < queueTimeout (cm_config (consent_mgr B)) \<and> nextSweep (consent_mgr B) \<le> 10000"
    by (simp add: a b)
  from consent_queue_expiry [where s = B and t = 10000] due'
  obtain gone where
    "queue (consent_mgr (snd (advanceTo 10000 B)))
       = filter (\<lambda>q. max (clock B) (nextSweep (consent_mgr (snd (advanceTo 10000 B)))
                                      - sweepInterval (cm_config (consent_mgr B)))
                      - queuedAt q < queueTimeout (cm_config (consent_mgr B)))
           (queue (consent_mgr B)) @ gone"
    and "\<forall>q \<in> set gone. \<exists>d. flushTimer B = Some d \<and> d \<le> 10000
             \<and> queuedAt q = max (clock B) d \<and> event q \<in> set (buffer B)"
    by blast
  then have "queue (consent_mgr (snd (advanceTo 10000 B))) = []"
    using none [of gone] by (simp add: b qb queuedPage_def)
  then have c7: "queue (consent_mgr (snd (run [?tr, AdvanceTo 2000, AdvanceTo 5000, AdvanceTo 10000]
                                           ?init))) = []"
    by (simp add: A_def B_def Let_def)
  have opts: "?init = createCollector (makeOptions [] 5000 \<lparr> maxSize = 10, maxWait = 2000 \<rparr>
                                         onePending []) ''anon'' None 0"
    by (simp add: pendingCollector_def testCollector_def)
  have "0 < queueTimeout (cfg_consent (opt_config
              (makeOptions [] 5000 \<lparr> maxSize = 10, maxWait = 2000 \<rparr> onePending [])))"
    by (simp add: makeOptions_def)
  with consent_queue_expiry [where opts = "makeOptions [] 5000 \<lparr> maxSize = 10, maxWait = 2000 \<rparr>
                                             onePending []"
        and anon = "''anon''" and nav = None and now' = 0 and cs = "[?tr, AdvanceTo 2000]"]
  have c8: "clock A \<le> nextSweep (consent_mgr A)"
    unfolding opts A_def by blast
  from c8 have c8': "clock (snd (run [?tr, AdvanceTo 2000] ?init))
                     \<le> nextSweep (consent_mgr (snd (run [?tr, AdvanceTo 2000] ?init)))"
    by (simp only: A_def)
  from c1 c2 c3 c4 c5 c6 c7 c8' show ?thesis by blast
qed

end
